theory Spec2Isabelle
  imports Main "HOL-Library.Word" "HOL-Library.Signed_Division"
begin

unbundle bit_operations_syntax

section \<open>The 16550a UART driver of kernel/uart.c\<close>

subsection \<open>Registers and bit masks\<close>

text \<open>
  The registers are byte wide (\<^verbatim>\<open>volatile unsigned char *\<close>) and are named by their
  index: \<^verbatim>\<open>Reg(reg)\<close> is the address \<^verbatim>\<open>UART_V + 4 * reg\<close>. Offset 0 is the
  receive holding register when read and the transmit holding register when written.
\<close>

type_synonym byte = "8 word"

definition RHR :: nat where [simp]: "RHR = 0"
definition THR :: nat where [simp]: "THR = 0"
definition IER :: nat where [simp]: "IER = 1"
definition FCR :: nat where [simp]: "FCR = 2"
definition IIR :: nat where [simp]: "IIR = 2"
definition LCR :: nat where [simp]: "LCR = 3"
definition LSR :: nat where [simp]: "LSR = 5"
definition USR :: nat where [simp]: "USR = 0x1f"

definition IER_TX_ENABLE :: byte where [simp]: "IER_TX_ENABLE = 1"
definition IER_RX_ENABLE :: byte where [simp]: "IER_RX_ENABLE = 2"
definition LCR_EIGHT_BITS :: byte where [simp]: "LCR_EIGHT_BITS = 3"
definition LSR_RX_READY :: byte where [simp]: "LSR_RX_READY = 1"
definition LSR_TX_IDLE :: byte where [simp]: "LSR_TX_IDLE = 0x20"
definition UART_IIR_BSY :: byte where [simp]: "UART_IIR_BSY = 0x07"

definition UART_TX_BUF_SIZE :: int where [simp]: "UART_TX_BUF_SIZE = 32"

subsection \<open>The driver state and its environment\<close>

text \<open>
  The globals of the file (\<^verbatim>\<open>uart_tx_buf\<close>, \<^verbatim>\<open>uart_tx_w\<close>, \<^verbatim>\<open>uart_tx_r\<close>,
  \<^verbatim>\<open>uart_tx_lock\<close>, the external \<^verbatim>\<open>panicked\<close>) together with what the code
  exchanges with its environment. The device is not modelled: \<open>reg_reads s reg\<close>
  counts the reads of register \<open>reg\<close> made so far, and a read of \<open>reg\<close> returns
  \<open>reg_in s reg (reg_reads s)\<close>, a value that may depend in any way on the register and
  on how many reads of each register came before. Every register write is appended to
  \<open>reg_writes\<close>. \<open>console_in\<close> lists the arguments of the calls of \<^verbatim>\<open>consoleintr\<close>,
  \<open>wakeups\<close> counts the calls of \<^verbatim>\<open>wakeup(&uart_tx_r)\<close>, \<open>noff\<close> is the nesting depth
  of \<^verbatim>\<open>push_off\<close>.
\<close>

record uart =
  uart_tx_buf :: "byte list"
  uart_tx_w :: int
  uart_tx_r :: int
  uart_tx_lock :: bool
  panicked :: int
  reg_in :: "nat \<Rightarrow> (nat \<Rightarrow> nat) \<Rightarrow> byte"
  reg_reads :: "nat \<Rightarrow> nat"
  reg_writes :: "(nat \<times> byte) list"
  console_in :: "int list"
  wakeups :: nat
  noff :: nat

text \<open>
  How a call ends. \<open>Ok\<close>: it returned. \<open>Sleeping\<close>: it is suspended inside
  \<^verbatim>\<open>sleep(&uart_tx_r, &uart_tx_lock)\<close>. \<open>Fault i\<close>: it indexed \<^verbatim>\<open>uart_tx_buf\<close> at
  \<open>i\<close> outside the array, which is undefined behaviour in C. \<open>Spinning\<close>: it is inside
  the empty loop \<^verbatim>\<open>for(;;) ;\<close> for ever, in the state given, which is all the call has
  done and will ever have done. A call that runs for ever in a loop that goes on
  reading or writing registers has no last state and no result at all: the functions
  below return an \<open>option\<close>, and \<open>None\<close> is that non-termination.
\<close>

datatype 'a res = Ok 'a | Sleeping 'a | Fault int | Spinning 'a

definition ReadReg :: "nat \<Rightarrow> uart \<Rightarrow> byte \<times> uart" where
  "ReadReg reg s =
     (reg_in s reg (reg_reads s),
      s\<lparr>reg_reads := (reg_reads s)(reg := Suc (reg_reads s reg))\<rparr>)"

definition WriteReg :: "nat \<Rightarrow> byte \<Rightarrow> uart \<Rightarrow> uart" where
  "WriteReg reg v s = s\<lparr>reg_writes := reg_writes s @ [(reg, v)]\<rparr>"

text \<open>
  The lock, the scheduler's \<^verbatim>\<open>sleep\<close> and \<^verbatim>\<open>wakeup\<close>, the interrupt nesting of
  \<^verbatim>\<open>push_off\<close> and \<^verbatim>\<open>pop_off\<close>, and the console's \<^verbatim>\<open>consoleintr\<close> are called by
  this file and defined outside it. Each is modelled by what it leaves in the state.
\<close>

text \<open>Modelled from the spec: \<^verbatim>\<open>acquire\<close> of the spinlock code, which takes the opaque
  mutual-exclusion lock that protects the cursors and the buffer.\<close>

definition acquire :: "uart \<Rightarrow> uart" where
  "acquire s = s\<lparr>uart_tx_lock := True\<rparr>"

text \<open>Modelled from the spec: \<^verbatim>\<open>release\<close> of the spinlock code, which gives the lock
  back.\<close>

definition release :: "uart \<Rightarrow> uart" where
  "release s = s\<lparr>uart_tx_lock := False\<rparr>"

text \<open>Modelled from the spec: \<^verbatim>\<open>initlock\<close> of the spinlock code, which initialises the
  lock, not held.\<close>

definition initlock :: "uart \<Rightarrow> uart" where
  "initlock s = s\<lparr>uart_tx_lock := False\<rparr>"

text \<open>Modelled from the spec: \<^verbatim>\<open>sleep\<close> of the scheduler, which suspends the caller on
  a wait condition and releases the lock while it is suspended (the lock is taken
  again when the caller is woken).\<close>

definition sleep :: "uart \<Rightarrow> uart" where
  "sleep s = s\<lparr>uart_tx_lock := False\<rparr>"

text \<open>Modelled from the spec: \<^verbatim>\<open>wakeup\<close> of the scheduler, which signals the writers
  suspended on the wait condition; the calls are counted.\<close>

definition wakeup :: "uart \<Rightarrow> uart" where
  "wakeup s = s\<lparr>wakeups := Suc (wakeups s)\<rparr>"

text \<open>Modelled from the spec: \<^verbatim>\<open>push_off\<close>, which disables local interruption
  (calls nest).\<close>

definition push_off :: "uart \<Rightarrow> uart" where
  "push_off s = s\<lparr>noff := Suc (noff s)\<rparr>"

text \<open>Modelled from the spec: \<^verbatim>\<open>pop_off\<close>, which restores the interruption state of
  the matching \<^verbatim>\<open>push_off\<close>.\<close>

definition pop_off :: "uart \<Rightarrow> uart" where
  "pop_off s = s\<lparr>noff := noff s - 1\<rparr>"

text \<open>Modelled from the spec: \<^verbatim>\<open>consoleintr\<close> of the console layer, which receives one
  input byte per call, returns nothing and does not block; the bytes are listed.\<close>

definition consoleintr :: "int \<Rightarrow> uart \<Rightarrow> uart" where
  "consoleintr c s = s\<lparr>console_in := console_in s @ [c]\<rparr>"

subsection \<open>The functions of the driver\<close>

definition uart_entxi :: "uart \<Rightarrow> uart" where
  "uart_entxi s =
     (case ReadReg IER s of (v, s1) \<Rightarrow>
        if v AND IER_TX_ENABLE = 0
        then WriteReg IER (IER_TX_ENABLE OR IER_RX_ENABLE) s1
        else s1)"

definition uart_init :: "uart \<Rightarrow> uart" where
  "uart_init s =
     (let s1 = WriteReg LCR LCR_EIGHT_BITS s;
          s2 = WriteReg FCR 0x00 s1;
          s3 = WriteReg IER IER_RX_ENABLE s2;
          s4 = s3\<lparr>uart_tx_w := 0, uart_tx_r := 0\<rparr>
      in initlock s4)"

text \<open>
  The statement \<^verbatim>\<open>for(;;) ;\<close> of the panic branches. \<open>spin\<close> is the loop: its body
  is empty, so every iteration passes the state on as it is. \<open>for_ever\<close> is the
  statement in its place in a function: were the loop to end, the function would go on
  with its result; when the loop has no result, the call stays in it, in the state
  in which it entered.
\<close>

partial_function (option) spin :: "uart \<Rightarrow> uart res option" where
  "spin s = spin s"

definition for_ever :: "uart \<Rightarrow> uart res option" where
  "for_ever s = (case spin s of None \<Rightarrow> Some (Spinning s) | Some r \<Rightarrow> Some r)"

text \<open>
  \<^verbatim>\<open>uart_start\<close>. The cursors are C \<^verbatim>\<open>int\<close>s and \<^verbatim>\<open>%\<close> truncates, which is \<open>smod\<close>.
  They are unbounded integers here: from \<^verbatim>\<open>uart_init\<close> on, \<^verbatim>\<open>uart_tx_r\<close> stays below 32
  and a store with \<^verbatim>\<open>uart_tx_w\<close> at 32 or more is a \<open>Fault\<close>, so no run reaches the
  overflow of \<^verbatim>\<open>uart_tx_w + 1\<close>.
  \<^verbatim>\<open>int c = uart_tx_buf[uart_tx_r]\<close> followed by \<^verbatim>\<open>WriteReg(THR, c)\<close> widens the
  \<^verbatim>\<open>char\<close> and narrows it again to the register's \<^verbatim>\<open>unsigned char\<close>: the byte written
  is the byte stored.
\<close>

partial_function (option) uart_start :: "uart \<Rightarrow> uart res option" where
  "uart_start s =
     (if uart_tx_w s = uart_tx_r s then Some (Ok s)
      else
        (case ReadReg LSR s of (v, s1) \<Rightarrow>
           if v AND LSR_TX_IDLE = 0 then Some (Ok s1)
           else if uart_tx_r s1 < 0 \<or> UART_TX_BUF_SIZE \<le> uart_tx_r s1
           then Some (Fault (uart_tx_r s1))
           else
             (let c = uart_tx_buf s1 ! nat (uart_tx_r s1);
                  s2 = s1\<lparr>uart_tx_r := (uart_tx_r s1 + 1) smod UART_TX_BUF_SIZE\<rparr>;
                  s3 = WriteReg THR c s2;
                  s4 = wakeup s3
              in uart_start s4)))"

text \<open>
  \<^verbatim>\<open>uart_putchar\<close>. The body of its \<^verbatim>\<open>while(1)\<close> either calls \<^verbatim>\<open>sleep\<close>, and the
  call is then suspended (\<open>Sleeping\<close>; once woken it runs \<open>uart_putchar_loop\<close> again
  with the lock reacquired), or stores the byte and returns. The argument is a C
  \<^verbatim>\<open>int\<close>, narrowed to \<^verbatim>\<open>char\<close> by the store.
\<close>

definition uart_putchar_loop :: "int \<Rightarrow> uart \<Rightarrow> uart res option" where
  "uart_putchar_loop c s =
     (if (uart_tx_w s + 1) smod UART_TX_BUF_SIZE = uart_tx_r s
      then Some (Sleeping (sleep s))
      else if uart_tx_w s < 0 \<or> UART_TX_BUF_SIZE \<le> uart_tx_w s
      then Some (Fault (uart_tx_w s))
      else
        (let s1 = s\<lparr>uart_tx_buf := (uart_tx_buf s)[nat (uart_tx_w s) := word_of_int c]\<rparr>;
             s2 = s1\<lparr>uart_tx_w := uart_tx_w s1 + 1\<rparr>
         in case uart_start s2 of
              None \<Rightarrow> None
            | Some (Ok s3) \<Rightarrow> Some (Ok (release s3))
            | Some r \<Rightarrow> Some r))"

definition uart_putchar :: "int \<Rightarrow> uart \<Rightarrow> uart res option" where
  "uart_putchar c s0 =
     (let s = acquire s0
      in if panicked s \<noteq> 0 then for_ever s else uart_putchar_loop c s)"

text \<open>The loop of \<^verbatim>\<open>uart_putc_sync\<close> that waits for the transmit-idle bit.\<close>

partial_function (option) uart_putc_sync_wait :: "uart \<Rightarrow> uart option" where
  "uart_putc_sync_wait s =
     (case ReadReg LSR s of (v, s1) \<Rightarrow>
        if v AND LSR_TX_IDLE = 0 then uart_putc_sync_wait s1 else Some s1)"

definition uart_putc_sync :: "int \<Rightarrow> uart \<Rightarrow> uart res option" where
  "uart_putc_sync c s0 =
     (let s = push_off s0
      in if panicked s \<noteq> 0 then for_ever s
         else
           (case uart_putc_sync_wait s of
              None \<Rightarrow> None
            | Some s1 \<Rightarrow> Some (Ok (pop_off (WriteReg THR (word_of_int c) s1)))))"

text \<open>
  \<^verbatim>\<open>uart_getchar\<close>: the register read is an \<^verbatim>\<open>unsigned char\<close>, promoted to the
  \<^verbatim>\<open>int\<close> that is returned.
\<close>

definition uart_getchar :: "uart \<Rightarrow> int \<times> uart" where
  "uart_getchar s =
     (case ReadReg LSR s of (v, s1) \<Rightarrow>
        if v AND 0x01 \<noteq> 0
        then (case ReadReg RHR s1 of (b, s2) \<Rightarrow> (uint b, s2))
        else (- 1, s1))"

text \<open>The receive loop of \<^verbatim>\<open>uart_intr\<close>.\<close>

partial_function (option) uart_intr_rx :: "uart \<Rightarrow> uart option" where
  "uart_intr_rx s =
     (case uart_getchar s of (c, s1) \<Rightarrow>
        if c = - 1 then Some s1 else uart_intr_rx (consoleintr c s1))"

declare spin.simps [code]
declare uart_start.simps [code]
declare uart_putc_sync_wait.simps [code]
declare uart_intr_rx.simps [code]

text \<open>
  \<^verbatim>\<open>uart_intr\<close>, in two parts. \<open>uart_intr_tx\<close> is what follows the receive loop: the
  transmit branch, taken on the line status value \<open>val\<close> read before the loop, and the
  busy quirk.
\<close>

definition uart_intr_tx :: "byte \<Rightarrow> uart \<Rightarrow> uart res option" where
  "uart_intr_tx val s4 =
     (case (if val AND LSR_TX_IDLE \<noteq> 0
            then (case uart_start (acquire s4) of
                    None \<Rightarrow> None
                  | Some (Ok s5) \<Rightarrow> Some (Ok (release s5))
                  | Some r \<Rightarrow> Some r)
            else Some (Ok s4)) of
        None \<Rightarrow> None
      | Some (Ok s6) \<Rightarrow>
          (case ReadReg IIR s6 of (v2, s7) \<Rightarrow>
             Some (Ok (if v2 AND UART_IIR_BSY \<noteq> 0 then snd (ReadReg USR s7) else s7)))
      | Some r \<Rightarrow> Some r)"

definition uart_intr :: "uart \<Rightarrow> uart res option" where
  "uart_intr s =
     (case ReadReg IIR s of (v1, s1) \<Rightarrow>
      let s2 = (if v1 AND 0x3f = 0x0c then snd (uart_getchar s1) else s1)
      in case ReadReg LSR s2 of (val, s3) \<Rightarrow>
         (case (if val AND LSR_RX_READY \<noteq> 0 then uart_intr_rx s3 else Some s3) of
            None \<Rightarrow> None
          | Some s4 \<Rightarrow> uart_intr_tx val s4))"

subsection \<open>Runs and observations\<close>

text \<open>
  The state at boot: the globals of the file are zero initialised, nothing has been
  read or written yet, and \<open>hw\<close> is what the registers will return.
\<close>

definition boot :: "(nat \<Rightarrow> (nat \<Rightarrow> nat) \<Rightarrow> byte) \<Rightarrow> uart" where
  "boot hw =
     \<lparr>uart_tx_buf = replicate 32 0, uart_tx_w = 0, uart_tx_r = 0,
      uart_tx_lock = False, panicked = 0, reg_in = hw, reg_reads = (\<lambda>_. 0),
      reg_writes = [], console_in = [], wakeups = 0, noff = 0\<rparr>"

text \<open>A writer that passes the bytes of a list to \<^verbatim>\<open>uart_putchar\<close>, one call each.\<close>

fun uart_putchars :: "int list \<Rightarrow> uart \<Rightarrow> uart res option" where
  "uart_putchars [] s = Some (Ok s)"
| "uart_putchars (c # cs) s =
     (case uart_putchar c s of Some (Ok s') \<Rightarrow> uart_putchars cs s' | r \<Rightarrow> r)"

text \<open>The values written to one register, in order; \<open>thr_out\<close> is the transmitted bytes.\<close>

definition reg_written :: "nat \<Rightarrow> uart \<Rightarrow> byte list" where
  "reg_written reg s = map snd (filter (\<lambda>(r, v). r = reg) (reg_writes s))"

definition thr_out :: "uart \<Rightarrow> byte list" where
  "thr_out s = reg_written THR s"

text \<open>The number of reads of the receive holding register made so far.\<close>

definition rhr_reads :: "uart \<Rightarrow> nat" where
  "rhr_reads s = reg_reads s RHR"

text \<open>
  Devices for the concrete runs. \<open>tx_idle_until n\<close> reports the transmit holding
  register idle on the first \<open>n\<close> reads of the line status register and busy from
  then on; \<open>tx_busy_at n\<close> reports it busy on read number \<open>n\<close> (counted from 0) and
  idle on every other read. No receive data is ever ready on either.
\<close>

definition tx_idle_until :: "nat \<Rightarrow> nat \<Rightarrow> (nat \<Rightarrow> nat) \<Rightarrow> byte" where
  "tx_idle_until n reg k = (if reg = LSR \<and> k LSR < n then LSR_TX_IDLE else 0)"

definition tx_busy_at :: "nat \<Rightarrow> nat \<Rightarrow> (nat \<Rightarrow> nat) \<Rightarrow> byte" where
  "tx_busy_at n reg k = (if reg = LSR \<and> k LSR \<noteq> n then LSR_TX_IDLE else 0)"

text \<open>
  \<open>tx_idle_until_and_at n m\<close> reports the transmit holding register idle on the first
  \<open>n\<close> reads of the line status register and on read number \<open>m\<close>, and busy on every
  other read.
\<close>

definition tx_idle_until_and_at :: "nat \<Rightarrow> nat \<Rightarrow> nat \<Rightarrow> (nat \<Rightarrow> nat) \<Rightarrow> byte" where
  "tx_idle_until_and_at n m reg k =
     (if reg = LSR \<and> (k LSR < n \<or> k LSR = m) then LSR_TX_IDLE else 0)"

text \<open>
  A receiver that holds the bytes \<open>bs\<close>: the receive-ready bit of the line status
  register is set as long as fewer than \<open>length bs\<close> reads of the receive holding
  register have been made, and the \<open>i\<close>-th such read returns the \<open>i\<close>-th byte. The
  transmitter is busy, and \<open>iir\<close> is what the interrupt identification register
  shows.
\<close>

definition rx_device :: "byte \<Rightarrow> byte list \<Rightarrow> nat \<Rightarrow> (nat \<Rightarrow> nat) \<Rightarrow> byte" where
  "rx_device iir bs reg k =
     (if reg = LSR then (if k RHR < length bs then LSR_RX_READY else 0)
      else if reg = RHR then (if k RHR < length bs then bs ! k RHR else 0)
      else if reg = IIR then iir
      else 0)"

text \<open>
  A state from which \<^verbatim>\<open>uart_start\<close> cannot leave its loop: the write cursor is
  beyond every value the read cursor takes, and the device reports idle on every
  further read of the line status register.
\<close>

definition tx_stuck :: "uart \<Rightarrow> bool" where
  "tx_stuck s \<longleftrightarrow>
     UART_TX_BUF_SIZE \<le> uart_tx_w s \<and> 0 \<le> uart_tx_r s \<and> uart_tx_r s < UART_TX_BUF_SIZE \<and>
     (\<forall>k. reg_reads s LSR \<le> k LSR \<longrightarrow> reg_in s LSR k AND LSR_TX_IDLE \<noteq> 0)"

text \<open>
  The bytes stored and not yet transmitted: \<^verbatim>\<open>uart_tx_w\<close> is zero after
  \<^verbatim>\<open>uart_init\<close> and is incremented by one at each store, so it counts the stores.
\<close>

definition untransmitted :: "uart \<Rightarrow> int" where
  "untransmitted s = uart_tx_w s - int (length (thr_out s))"

text \<open>
  The states the driver reaches from \<^verbatim>\<open>uart_init\<close> by calls of \<^verbatim>\<open>uart_putchar\<close>
  (which return or go to sleep), by woken sleepers running the loop again, and by the
  pump called under the lock as the interrupt handler does.
\<close>

inductive reachable :: "uart \<Rightarrow> bool" where
  init: "reachable (uart_init (boot hw))"
| putchar: "reachable s \<Longrightarrow> uart_putchar c s = Some (Ok s') \<Longrightarrow> reachable s'"
| putchar_sleep: "reachable s \<Longrightarrow> uart_putchar c s = Some (Sleeping s') \<Longrightarrow> reachable s'"
| woken: "reachable s \<Longrightarrow> uart_putchar_loop c (acquire s) = Some (Ok s') \<Longrightarrow> reachable s'"
| woken_sleep: "reachable s \<Longrightarrow> uart_putchar_loop c (acquire s) = Some (Sleeping s') \<Longrightarrow> reachable s'"
| pump: "reachable s \<Longrightarrow> uart_start (acquire s) = Some (Ok s') \<Longrightarrow> reachable (release s')"

text \<open>The invariant behind the capacity bound.\<close>

definition ring_inv :: "uart \<Rightarrow> bool" where
  "ring_inv s \<longleftrightarrow>
     panicked s = 0 \<and> 0 \<le> uart_tx_w s \<and>
     uart_tx_r s = int (length (thr_out s)) mod UART_TX_BUF_SIZE \<and>
     untransmitted s \<le> UART_TX_BUF_SIZE - 1"

text \<open>
  The device presents the bytes \<open>bs\<close>, one at a time, from read number \<open>j\<close> of the
  receive holding register on: the receive-ready bit of the line status register is
  set exactly as long as one of them has not been read, and the reads of the receive
  holding register return them in order.
\<close>

definition rx_presents :: "(nat \<Rightarrow> (nat \<Rightarrow> nat) \<Rightarrow> byte) \<Rightarrow> nat \<Rightarrow> byte list \<Rightarrow> bool" where
  "rx_presents hw j bs \<longleftrightarrow>
     (\<forall>k. j \<le> k RHR \<longrightarrow>
        (hw LSR k AND LSR_RX_READY \<noteq> 0) = (k RHR < j + length bs) \<and>
        (k RHR < j + length bs \<longrightarrow> hw RHR k = bs ! (k RHR - j)))"

text \<open>The transmit side and the device are the same in two states.\<close>

definition same_tx :: "uart \<Rightarrow> uart \<Rightarrow> bool" where
  "same_tx s s' \<longleftrightarrow>
     uart_tx_buf s' = uart_tx_buf s \<and> uart_tx_w s' = uart_tx_w s \<and>
     uart_tx_r s' = uart_tx_r s \<and> uart_tx_lock s' = uart_tx_lock s \<and>
     reg_writes s' = reg_writes s \<and> reg_in s' = reg_in s"

text \<open>
  The bytes in the buffer between the two cursors, and what holds of the driver as
  long as \<^verbatim>\<open>uart_tx_w\<close> has not reached 32: the read cursor counts the bytes
  transmitted and has not passed the write cursor.
\<close>

definition pending :: "uart \<Rightarrow> byte list" where
  "pending s =
     take (nat (uart_tx_w s - uart_tx_r s)) (drop (nat (uart_tx_r s)) (uart_tx_buf s))"

definition fifo_inv :: "uart \<Rightarrow> bool" where
  "fifo_inv s \<longleftrightarrow>
     length (uart_tx_buf s) = 32 \<and> panicked s = 0 \<and>
     uart_tx_r s = int (length (thr_out s)) \<and>
     uart_tx_r s \<le> uart_tx_w s \<and> uart_tx_w s < UART_TX_BUF_SIZE"

section \<open>Properties\<close>

subsection \<open>Auxiliary facts\<close>

lemma smod_32_nonneg [simp]: "0 \<le> a \<Longrightarrow> a smod 32 = a mod (32::int)"
  by (simp add: signed_modulo_int_def sgn_if)

lemmas run_defs = uart_putchar_def uart_putchar_loop_def uart_start.simps boot_def
  uart_init_def WriteReg_def ReadReg_def acquire_def release_def initlock_def wakeup_def
  sleep_def tx_idle_until_def tx_busy_at_def thr_out_def reg_written_def Let_def

lemma spin_None: "spin s = None"
proof (cases "spin s")
  case (Some y)
  have False
    by (rule spin.raw_induct [where P = "\<lambda>s y. False", OF _ Some]) blast
  then show ?thesis ..
qed simp

lemma for_ever_Spinning: "for_ever s = Some (Spinning s)"
  by (simp add: for_ever_def spin_None)

lemma uart_start_Some_not_stuck:
  assumes "uart_start s = Some y"
  shows "\<not> tx_stuck s"
proof (rule uart_start.raw_induct [where P = "\<lambda>s y. \<not> tx_stuck s", OF _ assms], goal_cases)
  case (1 f s y)
  show ?case
  proof
    assume stuck: "tx_stuck s"
    let ?s' = "wakeup (WriteReg THR (uart_tx_buf s ! nat (uart_tx_r s))
                 ((snd (ReadReg LSR s))\<lparr>uart_tx_r := (uart_tx_r s + 1) smod UART_TX_BUF_SIZE\<rparr>))"
    from stuck have idle: "reg_in s LSR (reg_reads s) AND LSR_TX_IDLE \<noteq> 0"
      unfolding tx_stuck_def by blast
    from stuck idle "1"(2) have "f ?s' = Some y"
      by (simp add: tx_stuck_def ReadReg_def Let_def)
    then have "\<not> tx_stuck ?s'"
      by (rule "1"(1))
    with stuck show False
      by (simp add: tx_stuck_def ReadReg_def WriteReg_def wakeup_def)
  qed
qed

lemma uart_start_diverges: "tx_stuck s \<Longrightarrow> uart_start s = None"
  using uart_start_Some_not_stuck by (cases "uart_start s") auto

text \<open>
  With both cursors inside the array the pump returns, after at most as many pops as
  the ring distance from the read cursor to the write cursor, which is 31 at most.
\<close>

lemma mod_32_negative:
  assumes "- 32 \<le> x" "x < (0::int)"
  shows "x mod 32 = x + 32"
proof -
  have "0 \<le> x + 32" "x + 32 < 32"
    using assms by simp_all
  then have "(x + 32) mod 32 = x + 32"
    by (rule mod_pos_pos_trivial)
  then show ?thesis by simp
qed

lemma ring_distance_zero:
  assumes "0 \<le> w" "w < 32" "0 \<le> r" "r < 32" "(w - r) mod 32 = (0::int)"
  shows "w = r"
proof (cases "r \<le> w")
  case True
  with assms have "(w - r) mod 32 = w - r" by simp
  with assms show ?thesis by simp
next
  case False
  with assms have "(w - r) mod 32 = w - r + 32"
    by (intro mod_32_negative) simp_all
  with assms show ?thesis by simp
qed

lemma ring_distance_step:
  assumes "0 \<le> w" "w < 32" "0 \<le> r" "r < 32" "w \<noteq> (r::int)"
  shows "(w - (r + 1) mod 32) mod 32 = (w - r) mod 32 - 1"
proof -
  have "(w - (r + 1) mod 32) mod 32 = (w - (r + 1)) mod 32"
    by (simp add: mod_diff_right_eq)
  also have "\<dots> = (w - r) mod 32 - 1"
  proof (cases "r < w")
    case True
    with assms have "(w - (r + 1)) mod 32 = w - (r + 1)" "(w - r) mod 32 = w - r"
      by simp_all
    then show ?thesis by simp
  next
    case False
    with assms have lt: "w < r" by simp
    with assms have "(w - (r + 1)) mod 32 = w - (r + 1) + 32"
      by (intro mod_32_negative) simp_all
    moreover from lt assms have "(w - r) mod 32 = w - r + 32"
      by (intro mod_32_negative) simp_all
    ultimately show ?thesis by simp
  qed
  finally show ?thesis .
qed

lemma nat_zero_eq: "nat a = 0 \<Longrightarrow> 0 \<le> a \<Longrightarrow> a = 0"
  by simp

lemma nat_pred_eq: "nat a = Suc n \<Longrightarrow> b = a - 1 \<Longrightarrow> nat b = n"
  by simp

lemma uart_start_returns_in_range:
  assumes "nat ((uart_tx_w s - uart_tx_r s) mod 32) = n"
    "0 \<le> uart_tx_w s" "uart_tx_w s < 32" "0 \<le> uart_tx_r s" "uart_tx_r s < 32"
  shows "\<exists>s'. uart_start s = Some (Ok s') \<and> length (thr_out s') \<le> length (thr_out s) + n"
  using assms
proof (induction n arbitrary: s)
  case 0
  have "0 \<le> (uart_tx_w s - uart_tx_r s) mod 32"
    by simp
  with "0.prems"(1) have "(uart_tx_w s - uart_tx_r s) mod 32 = 0"
    by (rule nat_zero_eq)
  with "0.prems"(2-5) have "uart_tx_w s = uart_tx_r s" by (rule ring_distance_zero)
  then have "uart_start s = Some (Ok s)"
    by (subst uart_start.simps) simp
  then show ?case by simp
next
  case (Suc n)
  have ne: "uart_tx_w s \<noteq> uart_tx_r s"
  proof
    assume "uart_tx_w s = uart_tx_r s"
    then have "(uart_tx_w s - uart_tx_r s) mod 32 = 0" by simp
    with Suc.prems(1) show False by simp
  qed
  show ?case
  proof (cases "reg_in s LSR (reg_reads s) AND LSR_TX_IDLE = 0")
    case True
    with ne have "uart_start s = Some (Ok (snd (ReadReg LSR s)))"
      by (subst uart_start.simps) (simp add: ReadReg_def)
    moreover have "thr_out (snd (ReadReg LSR s)) = thr_out s"
      by (simp add: ReadReg_def thr_out_def reg_written_def)
    ultimately show ?thesis
      by simp
  next
    case False
    define s4 where "s4 = wakeup (WriteReg THR (uart_tx_buf s ! nat (uart_tx_r s))
       ((snd (ReadReg LSR s))\<lparr>uart_tx_r := (uart_tx_r s + 1) smod UART_TX_BUF_SIZE\<rparr>))"
    from ne False Suc.prems(4,5) have step: "uart_start s = uart_start s4"
      unfolding s4_def by (subst uart_start.simps) (simp add: ReadReg_def Let_def)
    have r4: "uart_tx_r s4 = (uart_tx_r s + 1) mod 32" and w4: "uart_tx_w s4 = uart_tx_w s"
      using Suc.prems(4) by (simp_all add: s4_def wakeup_def WriteReg_def ReadReg_def)
    have len4: "length (thr_out s4) = Suc (length (thr_out s))"
      by (simp add: s4_def wakeup_def WriteReg_def ReadReg_def thr_out_def reg_written_def)
    have "(uart_tx_w s - (uart_tx_r s + 1) mod 32) mod 32 = (uart_tx_w s - uart_tx_r s) mod 32 - 1"
      using Suc.prems(2-5) ne by (rule ring_distance_step)
    then have "(uart_tx_w s4 - uart_tx_r s4) mod 32 = (uart_tx_w s - uart_tx_r s) mod 32 - 1"
      by (simp only: r4 w4)
    with Suc.prems(1) have d4: "nat ((uart_tx_w s4 - uart_tx_r s4) mod 32) = n"
      by (rule nat_pred_eq)
    have "\<exists>s'. uart_start s4 = Some (Ok s') \<and> length (thr_out s') \<le> length (thr_out s4) + n"
      using d4 by (rule Suc.IH) (simp_all add: r4 w4 Suc.prems(2,3))
    then show ?thesis
      by (simp add: step len4)
  qed
qed

subsection \<open>Transmit order\<close>

text \<open>
  Fewer than 32 bytes: on every device each call returns, and the bytes transmitted
  followed by the bytes still in the buffer are the bytes passed, in order.
\<close>

lemma take_drop_pop:
  assumes "r < w" "w \<le> length xs"
  shows "take (w - r) (drop r xs) = xs ! r # take (w - Suc r) (drop (Suc r) xs)"
proof -
  from assms have "drop r xs = xs ! r # drop (Suc r) xs"
    by (simp add: Cons_nth_drop_Suc)
  moreover from assms obtain m where "w - r = Suc m" "w - Suc r = m"
    by (cases "w - r") simp_all
  ultimately show ?thesis by simp
qed

lemma take_drop_push:
  assumes "r \<le> w" "w < length xs"
  shows "take (Suc w - r) (drop r (xs[w := c])) = take (w - r) (drop r xs) @ [c]"
proof -
  from assms have "take (Suc w - r) (drop r (xs[w := c])) = drop r (take (Suc w) (xs[w := c]))"
    by (simp add: drop_take)
  also from assms have "take (Suc w) (xs[w := c]) = take w xs @ [c]"
    by (simp add: take_Suc_conv_app_nth)
  also from assms have "drop r (take w xs @ [c]) = drop r (take w xs) @ [c]"
    by simp
  also have "drop r (take w xs) = take (w - r) (drop r xs)"
    by (simp add: drop_take)
  finally show ?thesis .
qed

lemma fifo_pop:
  assumes "fifo_inv s" "uart_tx_w s \<noteq> uart_tx_r s"
  defines "s4 \<equiv> wakeup (WriteReg THR (uart_tx_buf s ! nat (uart_tx_r s))
       ((snd (ReadReg LSR s))\<lparr>uart_tx_r := (uart_tx_r s + 1) smod UART_TX_BUF_SIZE\<rparr>))"
  shows "fifo_inv s4 \<and> uart_tx_w s4 = uart_tx_w s \<and>
         thr_out s4 @ pending s4 = thr_out s @ pending s"
proof -
  from assms(1,2) have r: "0 \<le> uart_tx_r s" "uart_tx_r s < uart_tx_w s" "uart_tx_w s < 32"
    and len: "length (uart_tx_buf s) = 32"
    by (simp_all add: fifo_inv_def)
  then have r': "(uart_tx_r s + 1) smod UART_TX_BUF_SIZE = uart_tx_r s + 1"
    by simp
  have f: "uart_tx_buf s4 = uart_tx_buf s" "uart_tx_w s4 = uart_tx_w s"
    "uart_tx_r s4 = uart_tx_r s + 1" "panicked s4 = panicked s"
    "thr_out s4 = thr_out s @ [uart_tx_buf s ! nat (uart_tx_r s)]"
    using r' by (simp_all add: s4_def wakeup_def WriteReg_def ReadReg_def thr_out_def reg_written_def)
  have inv: "fifo_inv s4"
    using assms(1) r by (simp add: fifo_inv_def f)
  have "nat (uart_tx_r s) < nat (uart_tx_w s)" "nat (uart_tx_w s) \<le> length (uart_tx_buf s)"
    using r len by simp_all
  then have "take (nat (uart_tx_w s) - nat (uart_tx_r s)) (drop (nat (uart_tx_r s)) (uart_tx_buf s))
      = uart_tx_buf s ! nat (uart_tx_r s) #
        take (nat (uart_tx_w s) - Suc (nat (uart_tx_r s))) (drop (Suc (nat (uart_tx_r s))) (uart_tx_buf s))"
    by (rule take_drop_pop)
  moreover have "nat (uart_tx_w s - uart_tx_r s) = nat (uart_tx_w s) - nat (uart_tx_r s)"
    "nat (uart_tx_w s - (uart_tx_r s + 1)) = nat (uart_tx_w s) - Suc (nat (uart_tx_r s))"
    "nat (uart_tx_r s + 1) = Suc (nat (uart_tx_r s))"
    using r by simp_all
  ultimately have "pending s = uart_tx_buf s ! nat (uart_tx_r s) # pending s4"
    by (simp add: pending_def f)
  with inv f show ?thesis by simp
qed

lemma uart_start_fifo_aux:
  assumes "uart_start s = Some y"
  shows "fifo_inv s \<longrightarrow> (\<forall>s'. y = Ok s' \<longrightarrow>
           fifo_inv s' \<and> uart_tx_w s' = uart_tx_w s \<and>
           thr_out s' @ pending s' = thr_out s @ pending s)"
proof (rule uart_start.raw_induct
    [where P = "\<lambda>s y. fifo_inv s \<longrightarrow> (\<forall>s'. y = Ok s' \<longrightarrow>
           fifo_inv s' \<and> uart_tx_w s' = uart_tx_w s \<and>
           thr_out s' @ pending s' = thr_out s @ pending s)", OF _ assms], goal_cases)
  case (1 f s y)
  show ?case
  proof (intro impI allI)
    fix s' assume inv: "fifo_inv s" and y: "y = Ok s'"
    show "fifo_inv s' \<and> uart_tx_w s' = uart_tx_w s \<and>
          thr_out s' @ pending s' = thr_out s @ pending s"
    proof (cases "uart_tx_w s = uart_tx_r s")
      case True
      with "1"(2) y inv show ?thesis by simp
    next
      case ne: False
      show ?thesis
      proof (cases "reg_in s LSR (reg_reads s) AND LSR_TX_IDLE = 0")
        case True
        with ne "1"(2) y have "s' = snd (ReadReg LSR s)"
          by (simp add: ReadReg_def)
        with inv show ?thesis
          by (simp add: fifo_inv_def pending_def thr_out_def reg_written_def ReadReg_def)
      next
        case idle: False
        from inv have r: "0 \<le> uart_tx_r s" "uart_tx_r s < 32"
          by (simp_all add: fifo_inv_def)
        let ?s4 = "wakeup (WriteReg THR (uart_tx_buf s ! nat (uart_tx_r s))
           ((snd (ReadReg LSR s))\<lparr>uart_tx_r := (uart_tx_r s + 1) smod UART_TX_BUF_SIZE\<rparr>))"
        from ne idle r "1"(2) have "f ?s4 = Some y"
          by (simp add: ReadReg_def Let_def)
        moreover have "fifo_inv ?s4 \<and> uart_tx_w ?s4 = uart_tx_w s \<and>
            thr_out ?s4 @ pending ?s4 = thr_out s @ pending s"
          using inv ne by (rule fifo_pop)
        ultimately show ?thesis
          using "1"(1) y by metis
      qed
    qed
  qed
qed

lemma uart_putchar_fifo:
  assumes inv: "fifo_inv s" and room: "uart_tx_w s + 1 < 32"
  shows "\<exists>s'. uart_putchar c s = Some (Ok s') \<and> fifo_inv s' \<and>
           uart_tx_w s' = uart_tx_w s + 1 \<and>
           thr_out s' @ pending s' = thr_out s @ pending s @ [word_of_int c]"
proof -
  from inv have r: "0 \<le> uart_tx_r s" "uart_tx_r s \<le> uart_tx_w s"
    and len: "length (uart_tx_buf s) = 32" and p: "panicked s = 0"
    by (simp_all add: fifo_inv_def)
  define s2 where "s2 = s\<lparr>uart_tx_lock := True,
      uart_tx_buf := (uart_tx_buf s)[nat (uart_tx_w s) := word_of_int c],
      uart_tx_w := uart_tx_w s + 1\<rparr>"
  have f2: "uart_tx_w s2 = uart_tx_w s + 1" "uart_tx_r s2 = uart_tx_r s" "thr_out s2 = thr_out s"
    by (simp_all add: s2_def thr_out_def reg_written_def)
  have inv2: "fifo_inv s2"
    using inv room by (simp add: fifo_inv_def s2_def thr_out_def reg_written_def)
  have "take (Suc (nat (uart_tx_w s)) - nat (uart_tx_r s))
          (drop (nat (uart_tx_r s)) ((uart_tx_buf s)[nat (uart_tx_w s) := word_of_int c]))
        = take (nat (uart_tx_w s) - nat (uart_tx_r s)) (drop (nat (uart_tx_r s)) (uart_tx_buf s))
          @ [word_of_int c]"
    using r room len by (intro take_drop_push) simp_all
  moreover have "nat (uart_tx_w s + 1 - uart_tx_r s) = Suc (nat (uart_tx_w s)) - nat (uart_tx_r s)"
    "nat (uart_tx_w s - uart_tx_r s) = nat (uart_tx_w s) - nat (uart_tx_r s)"
    using r by simp_all
  ultimately have pend2: "pending s2 = pending s @ [word_of_int c]"
    by (simp add: pending_def s2_def)
  from r room have "\<exists>s3. uart_start s2 = Some (Ok s3) \<and>
      length (thr_out s3) \<le> length (thr_out s2) + nat ((uart_tx_w s2 - uart_tx_r s2) mod 32)"
    by (intro uart_start_returns_in_range) (simp_all add: f2)
  then obtain s3 where s3: "uart_start s2 = Some (Ok s3)"
    by blast
  from uart_start_fifo_aux [OF s3] inv2
  have a3: "fifo_inv s3" "uart_tx_w s3 = uart_tx_w s2" "thr_out s3 @ pending s3 = thr_out s2 @ pending s2"
    by simp_all
  from r room have nf: "(uart_tx_w s + 1) smod UART_TX_BUF_SIZE \<noteq> uart_tx_r s"
    by simp
  from nf r room p s3 have "uart_putchar c s = Some (Ok (release s3))"
    by (simp add: uart_putchar_def uart_putchar_loop_def acquire_def Let_def s2_def)
  moreover from a3 f2 pend2 have "fifo_inv (release s3) \<and>
      uart_tx_w (release s3) = uart_tx_w s + 1 \<and>
      thr_out (release s3) @ pending (release s3) = thr_out s @ pending s @ [word_of_int c]"
    by (simp add: release_def fifo_inv_def pending_def thr_out_def reg_written_def)
  ultimately show ?thesis by blast
qed

lemma uart_putchars_fifo:
  assumes "fifo_inv s" "uart_tx_w s + int (length cs) < 32"
  shows "\<exists>s'. uart_putchars cs s = Some (Ok s') \<and> fifo_inv s' \<and>
           thr_out s' @ pending s' = thr_out s @ pending s @ map word_of_int cs"
  using assms
proof (induction cs arbitrary: s)
  case Nil
  then show ?case by simp
next
  case (Cons c cs)
  from Cons.prems have "uart_tx_w s + 1 < 32" by simp
  with Cons.prems(1) obtain s1 where s1: "uart_putchar c s = Some (Ok s1)" "fifo_inv s1"
      "uart_tx_w s1 = uart_tx_w s + 1"
      "thr_out s1 @ pending s1 = thr_out s @ pending s @ [word_of_int c]"
    using uart_putchar_fifo by blast
  from Cons.prems(2) s1(3) have "uart_tx_w s1 + int (length cs) < 32" by simp
  with s1(2) obtain s' where "uart_putchars cs s1 = Some (Ok s')" "fifo_inv s'"
      "thr_out s' @ pending s' = thr_out s1 @ pending s1 @ map word_of_int cs"
    using Cons.IH by blast
  with s1 show ?case by simp
qed

lemma fifo_order_below_32:
  assumes "length cs < 32"
  shows "\<exists>s'. uart_putchars cs (uart_init (boot hw)) = Some (Ok s') \<and>
           thr_out s' @ pending s' = map word_of_int cs \<and>
           (uart_tx_w s' = uart_tx_r s' \<longrightarrow> thr_out s' = map word_of_int cs)"
proof -
  let ?s = "uart_init (boot hw)"
  have inv: "fifo_inv ?s" and e: "thr_out ?s = []" "pending ?s = []" "uart_tx_w ?s = 0"
    by (simp_all add: fifo_inv_def pending_def thr_out_def reg_written_def uart_init_def
        boot_def WriteReg_def initlock_def)
  from assms e(3) have "uart_tx_w ?s + int (length cs) < 32" by simp
  with inv obtain s' where s': "uart_putchars cs ?s = Some (Ok s')"
      "thr_out s' @ pending s' = thr_out ?s @ pending ?s @ map word_of_int cs"
    using uart_putchars_fifo by blast
  have "pending s' = []" if "uart_tx_w s' = uart_tx_r s'"
    using that by (simp add: pending_def)
  with s' e show ?thesis by auto
qed

text \<open>
  C1. The claim: the bytes passed to \<^verbatim>\<open>uart_putchar\<close>, the capacity never exceeded,
  are the bytes written to the transmit holding register, in order, none duplicated
  or dropped. The code at 32 bytes: after \<^verbatim>\<open>uart_init\<close> the bytes 1 to 32 are passed
  one call each, on a device that is idle on its first 33 status reads. Every call
  returns with its byte transmitted and the buffer never holds more than one byte, but
  the 32nd store leaves \<^verbatim>\<open>uart_tx_w\<close> at 32, a value \<^verbatim>\<open>uart_tx_r\<close> never takes, so
  the pump does not see the buffer empty and transmits the byte at index 0 once more:
  33 bytes go out, the last one a duplicate of the first. (Up to 31 bytes the order
  holds: \<open>fifo_order_below_32\<close> above.)
\<close>

theorem fifo_order_broken_at_32:
  "map_option (map_res thr_out)
     (uart_putchars
       [1, 2, 3, 4, 5, 6, 7, 8, 9, 10, 11, 12, 13, 14, 15, 16,
        17, 18, 19, 20, 21, 22, 23, 24, 25, 26, 27, 28, 29, 30, 31, 32]
       (uart_init (boot (tx_idle_until 33))))
   = Some (Ok ([1, 2, 3, 4, 5, 6, 7, 8, 9, 10, 11, 12, 13, 14, 15, 16,
        17, 18, 19, 20, 21, 22, 23, 24, 25, 26, 27, 28, 29, 30, 31, 32] @ [1]))"
  by (simp add: run_defs)

subsection \<open>Termination of the pump\<close>

text \<open>
  C2. The claim: from every reachable state and for every sequence of status
  readings, one call of \<^verbatim>\<open>uart_start\<close> terminates after at most 32 pops. The code,
  on a device that is busy on status read number 32 and idle on every other read:
  32 calls of \<^verbatim>\<open>uart_putchar\<close> after \<^verbatim>\<open>uart_init\<close> return, with \<^verbatim>\<open>uart_tx_w = 32\<close>
  and \<^verbatim>\<open>uart_tx_r = 0\<close>, and the next call of \<^verbatim>\<open>uart_start\<close>, made with the lock
  held, never returns. (With \<^verbatim>\<open>uart_tx_w\<close> below 32 it would: see
  \<open>uart_start_returns_in_range\<close> above.)
\<close>

theorem uart_start_never_returns:
  "\<exists>s. uart_putchars
         [1, 2, 3, 4, 5, 6, 7, 8, 9, 10, 11, 12, 13, 14, 15, 16,
        17, 18, 19, 20, 21, 22, 23, 24, 25, 26, 27, 28, 29, 30, 31, 32]
         (uart_init (boot (tx_busy_at 32))) = Some (Ok s) \<and>
       uart_tx_w s = 32 \<and> uart_tx_r s = 0 \<and> uart_start (acquire s) = None"
proof -
  have "\<exists>s. uart_putchars
         [1, 2, 3, 4, 5, 6, 7, 8, 9, 10, 11, 12, 13, 14, 15, 16,
        17, 18, 19, 20, 21, 22, 23, 24, 25, 26, 27, 28, 29, 30, 31, 32]
         (uart_init (boot (tx_busy_at 32))) = Some (Ok s) \<and>
       uart_tx_w s = 32 \<and> uart_tx_r s = 0 \<and> tx_stuck (acquire s)"
    by (simp add: run_defs tx_stuck_def)
  then show ?thesis
    using uart_start_diverges by blast
qed

subsection \<open>Indices into the buffer\<close>

text \<open>
  C3. The claim: every read or write of \<^verbatim>\<open>uart_tx_buf\<close> uses an index in the range
  0 to 31. The code, on a device that is idle on its first 32 status reads: the 33rd
  call of \<^verbatim>\<open>uart_putchar\<close> after \<^verbatim>\<open>uart_init\<close> stores at index 32, outside the
  array.
\<close>

theorem store_index_out_of_bounds:
  "uart_putchars
     [1, 2, 3, 4, 5, 6, 7, 8, 9, 10, 11, 12, 13, 14, 15, 16,
        17, 18, 19, 20, 21, 22, 23, 24, 25, 26, 27, 28, 29, 30, 31, 32, 33]
     (uart_init (boot (tx_idle_until 32))) = Some (Fault 32)"
  by (simp add: run_defs)

subsection \<open>The pump as a no-op\<close>

text \<open>
  The two early returns of \<^verbatim>\<open>uart_start\<close>: when the cursors are equal, or when the
  line status register shows the transmit-idle bit clear, the call returns without a
  register write and leaves both cursors and the buffer as they were.
\<close>

lemma uart_start_early_returns:
  assumes "uart_tx_w s = uart_tx_r s \<or> reg_in s LSR (reg_reads s) AND LSR_TX_IDLE = 0"
  shows "\<exists>s'. uart_start s = Some (Ok s') \<and> reg_writes s' = reg_writes s \<and>
           uart_tx_w s' = uart_tx_w s \<and> uart_tx_r s' = uart_tx_r s \<and>
           uart_tx_buf s' = uart_tx_buf s"
  using assms by (subst uart_start.simps) (auto simp: ReadReg_def)

text \<open>
  C5. The claim: a call of \<^verbatim>\<open>uart_start\<close> made when the buffer is empty, or when the
  transmit-idle bit is clear, writes no register and leaves both cursors unchanged.
  The second half holds, and so does the first as long as the cursors are equal
  (\<open>uart_start_early_returns\<close> above). The code on an empty buffer whose cursors
  differ: after \<^verbatim>\<open>uart_init\<close> and 32 calls of \<^verbatim>\<open>uart_putchar\<close>, on a device that is
  idle on its first 32 status reads and on read number 33, all 32 bytes have been
  transmitted and none is left in the buffer, with \<^verbatim>\<open>uart_tx_w = 32\<close> and
  \<^verbatim>\<open>uart_tx_r = 0\<close>. The next call of \<^verbatim>\<open>uart_start\<close>, made with the lock held, finds
  the device idle, writes the stale byte at index 0 to the transmit holding register
  and moves the read cursor to 1.
\<close>

theorem uart_start_transmits_from_empty_buffer:
  "\<exists>s. uart_putchars
         [1, 2, 3, 4, 5, 6, 7, 8, 9, 10, 11, 12, 13, 14, 15, 16,
        17, 18, 19, 20, 21, 22, 23, 24, 25, 26, 27, 28, 29, 30, 31, 32]
         (uart_init (boot (tx_idle_until_and_at 32 33))) = Some (Ok s) \<and>
       thr_out s =
         [1, 2, 3, 4, 5, 6, 7, 8, 9, 10, 11, 12, 13, 14, 15, 16,
        17, 18, 19, 20, 21, 22, 23, 24, 25, 26, 27, 28, 29, 30, 31, 32] \<and>
       untransmitted s = 0 \<and> uart_tx_w s = 32 \<and> uart_tx_r s = 0 \<and>
       (\<exists>s'. uart_start (acquire s) = Some (Ok s') \<and>
             reg_writes s' = reg_writes s @ [(THR, 1)] \<and> uart_tx_r s' = 1)"
  by (simp add: run_defs untransmitted_def tx_idle_until_and_at_def)

subsection \<open>Panic\<close>

text \<open>
  C7. A call of \<^verbatim>\<open>uart_putchar\<close> or of \<^verbatim>\<open>uart_putc_sync\<close> entered while \<^verbatim>\<open>panicked\<close>
  is set never returns: it ends up in the empty loop, which has no result, and the
  state in which it stays there has the buffer, the cursors and the register writes
  of the call's entry, so that nothing was stored in the buffer and nothing written to
  the transmit holding register (or to any other register).
\<close>

theorem panicked_never_returns:
  assumes "panicked s \<noteq> 0"
  shows "(\<exists>s'. uart_putchar c s = Some (Spinning s') \<and> spin s' = None \<and>
            uart_tx_buf s' = uart_tx_buf s \<and> reg_writes s' = reg_writes s \<and>
            uart_tx_w s' = uart_tx_w s \<and> uart_tx_r s' = uart_tx_r s) \<and>
         (\<exists>s'. uart_putc_sync c s = Some (Spinning s') \<and> spin s' = None \<and>
            uart_tx_buf s' = uart_tx_buf s \<and> reg_writes s' = reg_writes s \<and>
            uart_tx_w s' = uart_tx_w s \<and> uart_tx_r s' = uart_tx_r s)"
  using assms
  by (simp add: uart_putchar_def uart_putc_sync_def acquire_def push_off_def
      for_ever_Spinning spin_None)

theorem panicked_never_returns_witness:
  "panicked ((boot (tx_idle_until 1))\<lparr>panicked := 1\<rparr>) \<noteq> 0 \<and>
   map_option (map_res reg_writes)
     (uart_putchar 65 ((boot (tx_idle_until 1))\<lparr>panicked := 1\<rparr>)) = Some (Spinning []) \<and>
   map_option (map_res reg_writes)
     (uart_putc_sync 65 ((boot (tx_idle_until 1))\<lparr>panicked := 1\<rparr>)) = Some (Spinning [])"
proof -
  let ?s = "(boot (tx_idle_until 1))\<lparr>panicked := 1\<rparr>"
  have h: "panicked ?s \<noteq> 0" by simp
  have w: "reg_writes ?s = []" by (simp add: boot_def)
  from panicked_never_returns [OF h, of 65] h w show ?thesis
    by auto
qed

subsection \<open>The non-blocking read\<close>

text \<open>
  C8. \<^verbatim>\<open>uart_getchar\<close> reads the line status register once. When the receive-ready bit
  is set it reads the receive holding register once and returns that byte; when the bit
  is clear it returns -1 without reading the receive holding register. It is a total
  function of the state (it has no loop and cannot block) and it leaves the lock as it
  was.
\<close>

theorem uart_getchar_reads:
  "(reg_in s LSR (reg_reads s) AND LSR_RX_READY \<noteq> 0 \<longrightarrow>
      fst (uart_getchar s) = uint (reg_in s RHR ((reg_reads s)(LSR := Suc (reg_reads s LSR)))) \<and>
      reg_reads (snd (uart_getchar s)) RHR = Suc (reg_reads s RHR)) \<and>
   (reg_in s LSR (reg_reads s) AND LSR_RX_READY = 0 \<longrightarrow>
      fst (uart_getchar s) = - 1 \<and>
      reg_reads (snd (uart_getchar s)) RHR = reg_reads s RHR) \<and>
   reg_reads (snd (uart_getchar s)) LSR = Suc (reg_reads s LSR) \<and>
   uart_tx_lock (snd (uart_getchar s)) = uart_tx_lock s"
  by (simp add: uart_getchar_def ReadReg_def)

theorem uart_getchar_reads_witness:
  "reg_in (boot (rx_device 1 [0x41])) LSR (reg_reads (boot (rx_device 1 [0x41])))
     AND LSR_RX_READY \<noteq> 0 \<and>
   fst (uart_getchar (boot (rx_device 1 [0x41]))) = 0x41 \<and>
   reg_in (boot (rx_device 1 [])) LSR (reg_reads (boot (rx_device 1 [])))
     AND LSR_RX_READY = 0 \<and>
   fst (uart_getchar (boot (rx_device 1 []))) = - 1"
  using uart_getchar_reads [of "boot (rx_device 1 [0x41])"]
    uart_getchar_reads [of "boot (rx_device 1 [])"]
  by (simp add: boot_def rx_device_def)

text \<open>
  C10. The result of \<^verbatim>\<open>uart_getchar\<close> is -1 or a value from 0 to 255, and it is -1
  exactly when the receive-ready bit was clear: a received byte is never taken for
  the "no data" value.
\<close>

theorem uart_getchar_range:
  "(fst (uart_getchar s) = - 1 \<or> (0 \<le> fst (uart_getchar s) \<and> fst (uart_getchar s) \<le> 255)) \<and>
   ((fst (uart_getchar s) = - 1) = (reg_in s LSR (reg_reads s) AND LSR_RX_READY = 0))"
proof -
  have "uint b \<le> 255" for b :: byte
    using uint_bounded [of b] by simp
  moreover have "uint b \<noteq> - 1" for b :: byte
    using uint_ge_0 [of b] by arith
  ultimately show ?thesis
    by (simp add: uart_getchar_def ReadReg_def split: prod.splits)
qed

subsection \<open>Capacity\<close>

lemma thr_out_WriteReg_THR [simp]: "thr_out (WriteReg THR c s) = thr_out s @ [c]"
  by (simp add: thr_out_def reg_written_def WriteReg_def)

lemma ring_inv_pop:
  assumes "ring_inv s" "0 \<le> uart_tx_r s" "uart_tx_r s < 32"
  shows "ring_inv (wakeup (WriteReg THR c
           ((snd (ReadReg LSR s))\<lparr>uart_tx_r := (uart_tx_r s + 1) smod UART_TX_BUF_SIZE\<rparr>)))"
proof -
  have "(int n mod 32 + 1) mod 32 = (1 + int n) mod 32" for n
    by presburger
  with assms show ?thesis
    by (simp add: ring_inv_def untransmitted_def thr_out_def reg_written_def
        wakeup_def WriteReg_def ReadReg_def)
qed

lemma ring_inv_ReadReg: "ring_inv (snd (ReadReg reg s)) = ring_inv s"
  by (simp add: ring_inv_def untransmitted_def thr_out_def reg_written_def ReadReg_def)

lemma uart_start_ring_inv_aux:
  assumes "uart_start s = Some y"
  shows "ring_inv s \<longrightarrow> (\<forall>s'. y = Ok s' \<longrightarrow> ring_inv s')"
proof (rule uart_start.raw_induct
    [where P = "\<lambda>s y. ring_inv s \<longrightarrow> (\<forall>s'. y = Ok s' \<longrightarrow> ring_inv s')", OF _ assms], goal_cases)
  case (1 f s y)
  show ?case
  proof (intro impI allI)
    fix s' assume inv: "ring_inv s" and y: "y = Ok s'"
    show "ring_inv s'"
    proof (cases "uart_tx_w s = uart_tx_r s")
      case True
      with "1"(2) y inv show ?thesis by simp
    next
      case ne: False
      show ?thesis
      proof (cases "reg_in s LSR (reg_reads s) AND LSR_TX_IDLE = 0")
        case True
        with ne "1"(2) y have "s' = snd (ReadReg LSR s)"
          by (simp add: ReadReg_def)
        with inv show ?thesis by (simp add: ring_inv_ReadReg)
      next
        case idle: False
        from inv have r: "0 \<le> uart_tx_r s" "uart_tx_r s < 32"
          by (simp_all add: ring_inv_def)
        let ?s4 = "wakeup (WriteReg THR (uart_tx_buf s ! nat (uart_tx_r s))
           ((snd (ReadReg LSR s))\<lparr>uart_tx_r := (uart_tx_r s + 1) smod UART_TX_BUF_SIZE\<rparr>))"
        from ne idle r "1"(2) have "f ?s4 = Some y"
          by (simp add: ReadReg_def Let_def)
        moreover have "ring_inv ?s4"
          using inv r by (rule ring_inv_pop)
        ultimately show ?thesis
          using "1"(1) y by blast
      qed
    qed
  qed
qed

lemma uart_start_ring_inv: "uart_start s = Some (Ok s') \<Longrightarrow> ring_inv s \<Longrightarrow> ring_inv s'"
  using uart_start_ring_inv_aux by blast

lemma ring_inv_lock [simp]:
  "ring_inv (acquire s) = ring_inv s" "ring_inv (release s) = ring_inv s"
  "ring_inv (sleep s) = ring_inv s"
  by (simp_all add: ring_inv_def untransmitted_def thr_out_def reg_written_def
      acquire_def release_def sleep_def)

lemma dvd_32_succ: "((32::int) dvd x + 1) = (x mod 32 = 31)"
proof (cases "x mod 32 = 31")
  case True
  have "(x + 1) mod 32 = (x mod 32 + 1) mod 32"
    by (simp add: mod_add_left_eq)
  with True show ?thesis
    by (simp add: dvd_eq_mod_eq_0)
next
  case False
  have b: "0 \<le> x mod 32" "x mod 32 < 32"
    by simp_all
  with False have "x mod 32 + 1 < 32" by linarith
  with b have "(x mod 32 + 1) mod 32 = x mod 32 + 1"
    by simp
  moreover have "(x + 1) mod 32 = (x mod 32 + 1) mod 32"
    by (simp add: mod_add_left_eq)
  ultimately have "(x + 1) mod 32 \<noteq> 0"
    using b by linarith
  with False show ?thesis
    by (simp add: dvd_eq_mod_eq_0)
qed

lemma full_arith: "((w + 1) mod 32 = n mod (32::int)) = ((w - n) mod 32 = 31)"
proof -
  have "((w + 1) mod 32 = n mod 32) = (32 dvd (w + 1 - n))"
    by (rule mod_eq_dvd_iff)
  also have "w + 1 - n = (w - n) + 1" by simp
  finally show ?thesis by (simp only: dvd_32_succ)
qed

lemma full_iff:
  assumes "ring_inv s"
  shows "((uart_tx_w s + 1) smod UART_TX_BUF_SIZE = uart_tx_r s) = (untransmitted s mod 32 = 31)"
proof -
  from assms have w: "0 \<le> uart_tx_w s" and r: "uart_tx_r s = int (length (thr_out s)) mod 32"
    by (simp_all add: ring_inv_def)
  from w have "(uart_tx_w s + 1) smod UART_TX_BUF_SIZE = (uart_tx_w s + 1) mod 32"
    by simp
  with r show ?thesis
    by (simp only: untransmitted_def full_arith)
qed

lemma uart_start_not_Sleeping:
  assumes "uart_start s = Some y"
  shows "y \<noteq> Sleeping s'"
proof (rule uart_start.raw_induct [where P = "\<lambda>s y. y \<noteq> Sleeping s'", OF _ assms], goal_cases)
  case (1 f s y)
  then show ?case
    by (auto simp: ReadReg_def Let_def split: if_splits)
qed

lemma putchar_loop_ring_inv:
  assumes "ring_inv s" "uart_putchar_loop c s = Some r" "r = Ok s' \<or> r = Sleeping s'"
  shows "ring_inv s'"
proof (cases "(uart_tx_w s + 1) smod UART_TX_BUF_SIZE = uart_tx_r s")
  case True
  with assms show ?thesis
    by (auto simp: uart_putchar_loop_def)
next
  case False
  with full_iff [OF assms(1)] have nf: "untransmitted s mod 32 \<noteq> 31" by simp
  let ?s2 = "s\<lparr>uart_tx_buf := (uart_tx_buf s)[nat (uart_tx_w s) := word_of_int c],
               uart_tx_w := uart_tx_w s + 1\<rparr>"
  from assms(1) have "untransmitted s \<le> 31"
    by (simp add: ring_inv_def)
  with nf have "untransmitted s \<le> 30"
    by (cases "untransmitted s = 31") simp_all
  with assms(1) have inv2: "ring_inv ?s2"
    by (simp add: ring_inv_def untransmitted_def thr_out_def reg_written_def)
  from False assms(2,3) obtain s3 where "uart_start ?s2 = Some (Ok s3)" "s' = release s3"
    by (auto simp: uart_putchar_loop_def Let_def uart_start_not_Sleeping
        split: if_splits option.splits res.splits)
  with inv2 show ?thesis
    using uart_start_ring_inv by auto
qed

lemma putchar_ring_inv:
  assumes "ring_inv s" "uart_putchar c s = Some r" "r = Ok s' \<or> r = Sleeping s'"
  shows "ring_inv s'"
proof -
  from assms(1) have "panicked (acquire s) = 0" by (simp add: ring_inv_def acquire_def)
  with assms(2) have "uart_putchar_loop c (acquire s) = Some r"
    by (simp add: uart_putchar_def Let_def)
  with assms show ?thesis
    using putchar_loop_ring_inv [of "acquire s" c r s'] by simp
qed

lemma reachable_ring_inv: "reachable s \<Longrightarrow> ring_inv s"
proof (induction rule: reachable.induct)
  case (init hw)
  show ?case
    by (simp add: ring_inv_def untransmitted_def thr_out_def reg_written_def uart_init_def
        boot_def WriteReg_def initlock_def)
next
  case (pump s s')
  then show ?case using uart_start_ring_inv [of "acquire s" s'] by simp
qed (blast intro: putchar_ring_inv putchar_loop_ring_inv [OF ring_inv_lock(1) [THEN iffD2]])+

lemma reachable_putchars:
  "reachable s \<Longrightarrow> uart_putchars cs s = Some (Ok s') \<Longrightarrow> reachable s'"
proof (induction cs arbitrary: s)
  case Nil
  then show ?case by simp
next
  case (Cons c cs)
  then show ?case
    by (auto split: option.splits res.splits intro: reachable.putchar)
qed

text \<open>
  C4. In every state the driver reaches from \<^verbatim>\<open>uart_init\<close> by enqueues and pump
  calls, at most 31 bytes are stored and not yet transmitted. A call of
  \<^verbatim>\<open>uart_putchar\<close> that finds 31 such bytes takes the sleep branch and leaves the
  buffer, the cursors and the register writes as they were; one that finds fewer
  (the pump has removed a byte) does not sleep.
\<close>

theorem capacity_bound:
  assumes "reachable s"
  shows "untransmitted s \<le> UART_TX_BUF_SIZE - 1 \<and>
         (untransmitted s = UART_TX_BUF_SIZE - 1 \<longrightarrow>
            (\<exists>s'. uart_putchar c s = Some (Sleeping s') \<and> uart_tx_buf s' = uart_tx_buf s \<and>
                  uart_tx_w s' = uart_tx_w s \<and> uart_tx_r s' = uart_tx_r s \<and>
                  reg_writes s' = reg_writes s)) \<and>
         (0 \<le> untransmitted s \<and> untransmitted s < UART_TX_BUF_SIZE - 1 \<longrightarrow>
            (\<forall>s'. uart_putchar c s \<noteq> Some (Sleeping s')))"
proof -
  from assms have inv: "ring_inv s" by (rule reachable_ring_inv)
  then have inv': "ring_inv (acquire s)" by simp
  have p: "panicked s = 0" using inv by (simp add: ring_inv_def)
  have u: "untransmitted (acquire s) = untransmitted s"
    by (simp add: untransmitted_def thr_out_def reg_written_def acquire_def)
  have full: "((uart_tx_w s + 1) smod UART_TX_BUF_SIZE = uart_tx_r s) = (untransmitted s mod 32 = 31)"
    using full_iff [OF inv] .
  have 1: "untransmitted s \<le> UART_TX_BUF_SIZE - 1"
    using inv by (simp add: ring_inv_def)
  have 2: "\<exists>s'. uart_putchar c s = Some (Sleeping s') \<and> uart_tx_buf s' = uart_tx_buf s \<and>
                  uart_tx_w s' = uart_tx_w s \<and> uart_tx_r s' = uart_tx_r s \<and>
                  reg_writes s' = reg_writes s" if "untransmitted s = UART_TX_BUF_SIZE - 1"
    using that full p
    by (simp add: uart_putchar_def uart_putchar_loop_def acquire_def sleep_def)
  have 3: "uart_putchar c s \<noteq> Some (Sleeping s')"
    if "0 \<le> untransmitted s \<and> untransmitted s < UART_TX_BUF_SIZE - 1" for s'
  proof -
    from that have "untransmitted s mod 32 \<noteq> 31" by simp
    with full have "(uart_tx_w s + 1) smod UART_TX_BUF_SIZE \<noteq> uart_tx_r s" by simp
    with p show ?thesis
      by (auto simp: uart_putchar_def uart_putchar_loop_def acquire_def Let_def
          split: option.splits res.splits dest: uart_start_not_Sleeping)
  qed
  from 1 2 3 show ?thesis by blast
qed

theorem capacity_bound_witness:
  "\<exists>s. uart_putchars [1, 2, 3, 4, 5, 6, 7, 8, 9, 10, 11, 12, 13, 14, 15, 16, 17, 18, 19, 20, 21, 22, 23, 24, 25, 26, 27, 28, 29, 30, 31] (uart_init (boot (tx_idle_until 0))) = Some (Ok s) \<and>
       reachable s \<and> untransmitted s = UART_TX_BUF_SIZE - 1 \<and>
       (\<exists>s'. uart_putchar 32 s = Some (Sleeping s') \<and> uart_tx_buf s' = uart_tx_buf s \<and>
             uart_tx_w s' = uart_tx_w s)"
proof -
  have "\<exists>s. uart_putchars [1, 2, 3, 4, 5, 6, 7, 8, 9, 10, 11, 12, 13, 14, 15, 16, 17, 18, 19, 20, 21, 22, 23, 24, 25, 26, 27, 28, 29, 30, 31] (uart_init (boot (tx_idle_until 0))) = Some (Ok s) \<and>
       untransmitted s = UART_TX_BUF_SIZE - 1"
    by (simp add: run_defs untransmitted_def)
  then obtain s where
    run: "uart_putchars [1, 2, 3, 4, 5, 6, 7, 8, 9, 10, 11, 12, 13, 14, 15, 16, 17, 18, 19, 20, 21, 22, 23, 24, 25, 26, 27, 28, 29, 30, 31] (uart_init (boot (tx_idle_until 0))) = Some (Ok s)"
    and full: "untransmitted s = UART_TX_BUF_SIZE - 1"
    by blast
  from run have r: "reachable s"
    by (rule reachable_putchars [OF reachable.init])
  from capacity_bound [OF r, of 32] full run r show ?thesis
    by blast
qed

subsection \<open>The transmit interrupt\<close>

lemma uart_start_reg_written_aux:
  assumes "uart_start s = Some y"
  shows "reg \<noteq> THR \<longrightarrow> (\<forall>s'. y = Ok s' \<longrightarrow> reg_written reg s' = reg_written reg s)"
proof (rule uart_start.raw_induct
    [where P = "\<lambda>s y. reg \<noteq> THR \<longrightarrow> (\<forall>s'. y = Ok s' \<longrightarrow> reg_written reg s' = reg_written reg s)",
      OF _ assms], goal_cases)
  case (1 f s y)
  show ?case
  proof (intro impI allI)
    fix s' assume reg: "reg \<noteq> THR" and y: "y = Ok s'"
    show "reg_written reg s' = reg_written reg s"
    proof (cases "uart_tx_w s = uart_tx_r s")
      case True
      with "1"(2) y show ?thesis by simp
    next
      case ne: False
      show ?thesis
      proof (cases "reg_in s LSR (reg_reads s) AND LSR_TX_IDLE = 0")
        case True
        with ne "1"(2) y have "s' = snd (ReadReg LSR s)"
          by (simp add: ReadReg_def)
        then show ?thesis by (simp add: reg_written_def ReadReg_def)
      next
        case idle: False
        show ?thesis
        proof (cases "uart_tx_r s < 0 \<or> UART_TX_BUF_SIZE \<le> uart_tx_r s")
          case True
          with ne idle "1"(2) y show ?thesis
            by (simp add: ReadReg_def)
        next
          case False
          let ?s4 = "wakeup (WriteReg THR (uart_tx_buf s ! nat (uart_tx_r s))
             ((snd (ReadReg LSR s))\<lparr>uart_tx_r := (uart_tx_r s + 1) smod UART_TX_BUF_SIZE\<rparr>))"
          have keep: "reg_written reg ?s4 = reg_written reg s"
            using reg by (simp add: reg_written_def WriteReg_def wakeup_def ReadReg_def)
          from ne idle False "1"(2) have "f ?s4 = Some y"
            by (simp add: ReadReg_def Let_def)
          with "1"(1) reg y have "reg_written reg s' = reg_written reg ?s4" by blast
          with keep show ?thesis by simp
        qed
      qed
    qed
  qed
qed

lemma uart_start_reg_written:
  "uart_start s = Some (Ok s') \<Longrightarrow> reg \<noteq> THR \<Longrightarrow> reg_written reg s' = reg_written reg s"
  using uart_start_reg_written_aux by blast

lemma uart_putc_sync_wait_writes_aux:
  assumes "uart_putc_sync_wait s = Some s'"
  shows "reg_writes s' = reg_writes s"
proof (rule uart_putc_sync_wait.raw_induct
    [where P = "\<lambda>s s'. reg_writes s' = reg_writes s", OF _ assms], goal_cases)
  case (1 f s s')
  show ?case
  proof (cases "reg_in s LSR (reg_reads s) AND LSR_TX_IDLE = 0")
    case True
    with "1"(2) have "f (snd (ReadReg LSR s)) = Some s'"
      by (simp add: ReadReg_def)
    then have "reg_writes s' = reg_writes (snd (ReadReg LSR s))"
      by (rule "1"(1))
    then show ?thesis by (simp add: ReadReg_def)
  next
    case False
    with "1"(2) have "s' = snd (ReadReg LSR s)"
      by (simp add: ReadReg_def)
    then show ?thesis by (simp add: ReadReg_def)
  qed
qed

lemma uart_getchar_writes: "reg_writes (snd (uart_getchar s)) = reg_writes s"
  by (simp add: uart_getchar_def ReadReg_def)

lemma uart_intr_rx_writes_aux:
  assumes "uart_intr_rx s = Some s'"
  shows "reg_writes s' = reg_writes s"
proof (rule uart_intr_rx.raw_induct
    [where P = "\<lambda>s s'. reg_writes s' = reg_writes s", OF _ assms], goal_cases)
  case (1 f s s')
  show ?case
  proof (cases "fst (uart_getchar s) = - 1")
    case True
    with "1"(2) have "s' = snd (uart_getchar s)"
      by (simp add: split_def)
    then show ?thesis by (simp add: uart_getchar_writes)
  next
    case False
    with "1"(2) have "f (consoleintr (fst (uart_getchar s)) (snd (uart_getchar s))) = Some s'"
      by (simp add: split_def)
    then have "reg_writes s' =
        reg_writes (consoleintr (fst (uart_getchar s)) (snd (uart_getchar s)))"
      by (rule "1"(1))
    then show ?thesis by (simp add: consoleintr_def uart_getchar_writes)
  qed
qed

lemma uart_intr_tx_reg_written:
  assumes "uart_intr_tx val s = Some (Ok s')" "reg \<noteq> THR"
  shows "reg_written reg s' = reg_written reg s"
proof -
  from assms(1) obtain s6 where s6: "reg_written reg s6 = reg_written reg s"
    and s': "s' = (if fst (ReadReg IIR s6) AND UART_IIR_BSY \<noteq> 0
                   then snd (ReadReg USR (snd (ReadReg IIR s6))) else snd (ReadReg IIR s6))"
  proof (cases "val AND LSR_TX_IDLE \<noteq> 0")
    case True
    with assms(1) obtain s5 where s5: "uart_start (acquire s) = Some (Ok s5)"
      and e: "s' = (if fst (ReadReg IIR (release s5)) AND UART_IIR_BSY \<noteq> 0
                   then snd (ReadReg USR (snd (ReadReg IIR (release s5))))
                   else snd (ReadReg IIR (release s5)))"
      by (auto simp: uart_intr_tx_def split_def split: option.splits res.splits)
    from uart_start_reg_written [OF s5 assms(2)]
    have "reg_written reg (release s5) = reg_written reg s"
      by (simp add: release_def acquire_def reg_written_def)
    with e that show ?thesis by blast
  next
    case False
    with assms(1) have "s' = (if fst (ReadReg IIR s) AND UART_IIR_BSY \<noteq> 0
                   then snd (ReadReg USR (snd (ReadReg IIR s))) else snd (ReadReg IIR s))"
      by (auto simp: uart_intr_tx_def split_def)
    with that show ?thesis by blast
  qed
  from s' s6 show ?thesis
    by (simp add: ReadReg_def reg_written_def)
qed

lemma uart_intr_reg_written:
  assumes "uart_intr s = Some (Ok s')" "reg \<noteq> THR"
  shows "reg_written reg s' = reg_written reg s"
proof -
  define s2 where "s2 = (if fst (ReadReg IIR s) AND 0x3f = 0x0c
      then snd (uart_getchar (snd (ReadReg IIR s))) else snd (ReadReg IIR s))"
  define val where "val = fst (ReadReg LSR s2)"
  define s3 where "s3 = snd (ReadReg LSR s2)"
  have w3: "reg_writes s3 = reg_writes s"
    by (simp add: s3_def s2_def uart_getchar_writes ReadReg_def)
  define rxr where "rxr = (if val AND LSR_RX_READY \<noteq> 0 then uart_intr_rx s3 else Some s3)"
  have "uart_intr s = (case rxr of None \<Rightarrow> None | Some s4 \<Rightarrow> uart_intr_tx val s4)"
    unfolding rxr_def val_def s3_def s2_def
    by (simp add: uart_intr_def split_def Let_def cong: option.case_cong)
  with assms(1) have "(case rxr of None \<Rightarrow> None | Some s4 \<Rightarrow> uart_intr_tx val s4) = Some (Ok s')"
    by simp
  then obtain s4 where "rxr = Some s4" and tx: "uart_intr_tx val s4 = Some (Ok s')"
    by (cases rxr) simp_all
  then have rx: "(if val AND LSR_RX_READY \<noteq> 0 then uart_intr_rx s3 else Some s3) = Some s4"
    by (simp add: rxr_def)
  from rx have "reg_writes s4 = reg_writes s3"
    by (auto split: if_splits dest: uart_intr_rx_writes_aux)
  with w3 have "reg_written reg s4 = reg_written reg s"
    by (simp add: reg_written_def)
  with uart_intr_tx_reg_written [OF tx assms(2)] show ?thesis by simp
qed

lemma uart_start_not_Spinning:
  assumes "uart_start s = Some y"
  shows "y \<noteq> Spinning s'"
proof (rule uart_start.raw_induct [where P = "\<lambda>s y. y \<noteq> Spinning s'", OF _ assms], goal_cases)
  case (1 f s y)
  then show ?case
    by (auto simp: ReadReg_def Let_def split: if_splits)
qed

text \<open>
  C6. The claim: the first \<^verbatim>\<open>uart_putchar\<close> that stores a byte and calls the pump sets
  the transmit-interrupt enable bit of the interrupt enable register. The code: after
  \<^verbatim>\<open>uart_init\<close>, a first \<^verbatim>\<open>uart_putchar\<close> on an idle device stores and transmits its
  byte, and the only value ever written to the interrupt enable register is the
  \<^verbatim>\<open>IER_RX_ENABLE\<close> of \<^verbatim>\<open>uart_init\<close>, in which the transmit bit is clear.
\<close>

theorem tx_interrupt_not_enabled_by_putchar:
  "map_option (map_res thr_out) (uart_putchar 65 (uart_init (boot (tx_idle_until 1))))
     = Some (Ok [65]) \<and>
   map_option (map_res (reg_written IER)) (uart_putchar 65 (uart_init (boot (tx_idle_until 1))))
     = Some (Ok [IER_RX_ENABLE]) \<and>
   IER_RX_ENABLE AND IER_TX_ENABLE = 0"
  by (simp add: run_defs)

text \<open>
  C6, as the code has it: no function of the file but \<^verbatim>\<open>uart_init\<close> and
  \<^verbatim>\<open>uart_entxi\<close> writes the interrupt enable register. \<^verbatim>\<open>uart_putchar\<close>,
  \<^verbatim>\<open>uart_start\<close>, \<^verbatim>\<open>uart_putc_sync\<close>, \<^verbatim>\<open>uart_getchar\<close> and \<^verbatim>\<open>uart_intr\<close> leave the
  values written to it as they were; \<^verbatim>\<open>uart_init\<close> writes \<^verbatim>\<open>IER_RX_ENABLE\<close>, in which
  the transmit bit is clear; \<^verbatim>\<open>uart_entxi\<close>, which no function of the file calls,
  writes \<^verbatim>\<open>IER_TX_ENABLE | IER_RX_ENABLE\<close>, in which the bit is set, when it reads the
  register with the transmit bit clear, and nothing otherwise.
\<close>

theorem ier_written_by_entxi_only:
  "(\<forall>r s'. uart_putchar c s = Some r \<and> (r = Ok s' \<or> r = Sleeping s' \<or> r = Spinning s') \<longrightarrow>
      reg_written IER s' = reg_written IER s) \<and>
   (\<forall>s'. uart_start s = Some (Ok s') \<longrightarrow> reg_written IER s' = reg_written IER s) \<and>
   (\<forall>r s'. uart_putc_sync c s = Some r \<and> (r = Ok s' \<or> r = Spinning s') \<longrightarrow>
      reg_written IER s' = reg_written IER s) \<and>
   reg_written IER (snd (uart_getchar s)) = reg_written IER s \<and>
   (\<forall>s'. uart_intr s = Some (Ok s') \<longrightarrow> reg_written IER s' = reg_written IER s) \<and>
   reg_written IER (uart_init s) = reg_written IER s @ [IER_RX_ENABLE] \<and>
   reg_written IER (uart_entxi s) =
     (if reg_in s IER (reg_reads s) AND IER_TX_ENABLE = 0
      then reg_written IER s @ [IER_TX_ENABLE OR IER_RX_ENABLE] else reg_written IER s) \<and>
   IER_RX_ENABLE AND IER_TX_ENABLE = 0 \<and>
   (IER_TX_ENABLE OR IER_RX_ENABLE) AND IER_TX_ENABLE \<noteq> 0"
proof -
  have a: "reg_written IER s' = reg_written IER s"
    if "uart_putchar c s = Some r" "r = Ok s' \<or> r = Sleeping s' \<or> r = Spinning s'" for r s'
  proof (cases "panicked s \<noteq> 0")
    case True
    with that(1) have "r = Spinning (acquire s)"
      by (simp add: uart_putchar_def acquire_def for_ever_Spinning)
    with that(2) show ?thesis
      by (auto simp: acquire_def reg_written_def)
  next
    case np: False
    show ?thesis
    proof (cases "(uart_tx_w s + 1) smod UART_TX_BUF_SIZE = uart_tx_r s")
      case True
      with np that show ?thesis
        by (auto simp: uart_putchar_def uart_putchar_loop_def acquire_def sleep_def
            reg_written_def Let_def)
    next
      case False
      let ?s2 = "s\<lparr>uart_tx_lock := True,
                   uart_tx_buf := (uart_tx_buf s)[nat (uart_tx_w s) := word_of_int c],
                   uart_tx_w := uart_tx_w s + 1\<rparr>"
      from False np that obtain s3 where s3: "uart_start ?s2 = Some (Ok s3)" "s' = release s3"
        by (auto simp: uart_putchar_def uart_putchar_loop_def acquire_def Let_def
            uart_start_not_Sleeping uart_start_not_Spinning
            split: if_splits option.splits res.splits)
      from s3(1) have "reg_written IER s3 = reg_written IER ?s2"
        by (rule uart_start_reg_written) simp
      with s3(2) show ?thesis
        by (simp add: reg_written_def release_def)
    qed
  qed
  have b: "reg_written IER s' = reg_written IER s" if "uart_start s = Some (Ok s')" for s'
    using that by (rule uart_start_reg_written) simp
  have c: "reg_written IER s' = reg_written IER s"
    if "uart_putc_sync c s = Some r" "r = Ok s' \<or> r = Spinning s'" for r s'
  proof (cases "panicked s \<noteq> 0")
    case True
    with that(1) have "r = Spinning (push_off s)"
      by (simp add: uart_putc_sync_def push_off_def for_ever_Spinning)
    with that(2) show ?thesis
      by (auto simp: push_off_def reg_written_def)
  next
    case False
    with that obtain s1 where s1: "uart_putc_sync_wait (push_off s) = Some s1"
      and e: "s' = pop_off (WriteReg THR (word_of_int c) s1)"
      by (auto simp: uart_putc_sync_def push_off_def Let_def split: option.splits)
    from uart_putc_sync_wait_writes_aux [OF s1] have "reg_writes s1 = reg_writes s"
      by (simp add: push_off_def)
    with e show ?thesis
      by (simp add: reg_written_def pop_off_def WriteReg_def)
  qed
  have d: "reg_written IER (snd (uart_getchar s)) = reg_written IER s"
    by (simp add: reg_written_def uart_getchar_writes)
  have e: "reg_written IER s' = reg_written IER s" if "uart_intr s = Some (Ok s')" for s'
    using that by (rule uart_intr_reg_written) simp
  have f: "reg_written IER (uart_init s) = reg_written IER s @ [IER_RX_ENABLE]"
    by (simp add: uart_init_def reg_written_def WriteReg_def initlock_def)
  have g: "reg_written IER (uart_entxi s) =
     (if reg_in s IER (reg_reads s) AND IER_TX_ENABLE = 0
      then reg_written IER s @ [IER_TX_ENABLE OR IER_RX_ENABLE] else reg_written IER s)"
    by (simp add: uart_entxi_def reg_written_def WriteReg_def ReadReg_def)
  have h: "IER_RX_ENABLE AND IER_TX_ENABLE = 0" "(IER_TX_ENABLE OR IER_RX_ENABLE) AND IER_TX_ENABLE \<noteq> 0"
    by simp_all
  from a b c d e f g h show ?thesis by blast
qed

theorem ier_written_by_entxi_only_witness:
  "(\<exists>s'. uart_putchar 65 (uart_init (boot (tx_idle_until 1))) = Some (Ok s') \<and>
         reg_written IER s' = [IER_RX_ENABLE]) \<and>
   (\<exists>s'. uart_putc_sync 65 (uart_init (boot (tx_idle_until 1))) = Some (Ok s') \<and>
         reg_written IER s' = [IER_RX_ENABLE]) \<and>
   (\<exists>s'. uart_intr (uart_init (boot (tx_idle_until 1))) = Some (Ok s') \<and>
         reg_written IER s' = [IER_RX_ENABLE]) \<and>
   reg_written IER (uart_entxi (uart_init (boot (tx_idle_until 1)))) = [IER_RX_ENABLE, 3]"
proof -
  let ?s = "uart_init (boot (tx_idle_until 1))"
  have run: "\<exists>s'. uart_putchar 65 ?s = Some (Ok s')"
    by (simp add: run_defs)
  have sync: "\<exists>s'. uart_putc_sync 65 ?s = Some (Ok s')"
    by (simp add: uart_putc_sync_def uart_putc_sync_wait.simps push_off_def run_defs)
  have intr: "\<exists>s'. uart_intr ?s = Some (Ok s')"
    by (simp add: uart_intr_def uart_intr_tx_def run_defs)
  have i: "reg_written IER ?s = [IER_RX_ENABLE]"
    using ier_written_by_entxi_only [of 65 "boot (tx_idle_until 1)"]
    by (simp add: reg_written_def boot_def)
  have rd: "reg_in ?s IER (reg_reads ?s) AND IER_TX_ENABLE = 0"
    by (simp add: run_defs)
  from run sync intr i rd ier_written_by_entxi_only [of 65 ?s] show ?thesis
    by auto
qed

subsection \<open>Receive\<close>

lemma uint_byte_not_minus1: "uint (b :: byte) \<noteq> - 1"
  using uint_ge_0 [of b] by arith

lemma uart_getchar_ready:
  assumes "rx_presents (reg_in t) j bs" "reg_reads t RHR = j + i" "i < length bs"
  shows "uart_getchar t =
           (uint (bs ! i),
            t\<lparr>reg_reads := (reg_reads t)(LSR := Suc (reg_reads t LSR), RHR := Suc (j + i))\<rparr>)"
proof -
  from assms have "reg_in t LSR (reg_reads t) AND LSR_RX_READY \<noteq> 0"
    by (simp add: rx_presents_def)
  moreover
  from assms have "reg_in t RHR ((reg_reads t)(LSR := Suc (reg_reads t LSR))) = bs ! i"
    by (simp add: rx_presents_def)
  ultimately show ?thesis
    using assms(2) by (simp add: uart_getchar_def ReadReg_def)
qed

lemma uart_getchar_drained:
  assumes "rx_presents (reg_in t) j bs" "reg_reads t RHR = j + length bs"
  shows "uart_getchar t =
           (- 1, t\<lparr>reg_reads := (reg_reads t)(LSR := Suc (reg_reads t LSR))\<rparr>)"
proof -
  from assms(1) have "(reg_in t LSR (reg_reads t) AND LSR_RX_READY \<noteq> 0)
      = (reg_reads t RHR < j + length bs)"
    unfolding rx_presents_def using assms(2) by (metis le_add1)
  with assms(2) have "reg_in t LSR (reg_reads t) AND LSR_RX_READY = 0"
    by simp
  then show ?thesis
    by (simp add: uart_getchar_def ReadReg_def)
qed

lemma uart_intr_rx_forwards:
  assumes "rx_presents (reg_in t) j bs" "reg_reads t RHR = j + i" "i \<le> length bs"
  shows "\<exists>t'. uart_intr_rx t = Some t' \<and>
              console_in t' = console_in t @ map uint (drop i bs) \<and>
              reg_reads t' RHR = j + length bs \<and> same_tx t t'"
  using assms
proof (induction "length bs - i" arbitrary: t i)
  case 0
  then have i: "i = length bs" by simp
  with "0.prems" have "uart_getchar t =
      (- 1, t\<lparr>reg_reads := (reg_reads t)(LSR := Suc (reg_reads t LSR))\<rparr>)"
    by (simp add: uart_getchar_drained)
  then have "uart_intr_rx t = Some (t\<lparr>reg_reads := (reg_reads t)(LSR := Suc (reg_reads t LSR))\<rparr>)"
    by (subst uart_intr_rx.simps) simp
  with i "0.prems"(2) show ?case
    by (simp add: same_tx_def)
next
  case (Suc n)
  then have i: "i < length bs" by simp
  let ?t2 = "consoleintr (uint (bs ! i))
     (t\<lparr>reg_reads := (reg_reads t)(LSR := Suc (reg_reads t LSR), RHR := Suc (j + i))\<rparr>)"
  from Suc.prems(1,2) i have g: "uart_getchar t =
      (uint (bs ! i),
       t\<lparr>reg_reads := (reg_reads t)(LSR := Suc (reg_reads t LSR), RHR := Suc (j + i))\<rparr>)"
    by (rule uart_getchar_ready)
  have step: "uart_intr_rx t = uart_intr_rx ?t2"
    by (subst uart_intr_rx.simps) (simp add: g uint_byte_not_minus1)
  have "\<exists>t'. uart_intr_rx ?t2 = Some t' \<and>
              console_in t' = console_in ?t2 @ map uint (drop (Suc i) bs) \<and>
              reg_reads t' RHR = j + length bs \<and> same_tx ?t2 t'"
  proof (rule Suc.hyps(1))
    show "n = length bs - Suc i" using Suc.hyps(2) by simp
    show "rx_presents (reg_in ?t2) j bs" using Suc.prems(1) by (simp add: consoleintr_def)
    show "reg_reads ?t2 RHR = j + Suc i" by (simp add: consoleintr_def)
    show "Suc i \<le> length bs" using i by simp
  qed
  then obtain t' where t': "uart_intr_rx ?t2 = Some t'"
      "console_in t' = console_in ?t2 @ map uint (drop (Suc i) bs)"
      "reg_reads t' RHR = j + length bs" "same_tx ?t2 t'"
    by blast
  have "console_in ?t2 @ map uint (drop (Suc i) bs) = console_in t @ map uint (drop i bs)"
    using i by (simp add: consoleintr_def Cons_nth_drop_Suc [symmetric])
  with t' step show ?case
    by (simp add: same_tx_def consoleintr_def)
qed

lemma uart_start_rx_frame_aux:
  assumes "uart_start s = Some y"
  shows "\<forall>s'. y = Ok s' \<longrightarrow>
           console_in s' = console_in s \<and> reg_reads s' RHR = reg_reads s RHR"
proof (rule uart_start.raw_induct
    [where P = "\<lambda>s y. \<forall>s'. y = Ok s' \<longrightarrow>
           console_in s' = console_in s \<and> reg_reads s' RHR = reg_reads s RHR",
      OF _ assms], goal_cases)
  case (1 f s y)
  show ?case
  proof (intro impI allI)
    fix s' assume y: "y = Ok s'"
    show "console_in s' = console_in s \<and> reg_reads s' RHR = reg_reads s RHR"
    proof (cases "uart_tx_w s = uart_tx_r s")
      case True
      with "1"(2) y show ?thesis by simp
    next
      case ne: False
      show ?thesis
      proof (cases "reg_in s LSR (reg_reads s) AND LSR_TX_IDLE = 0")
        case True
        with ne "1"(2) y have "s' = snd (ReadReg LSR s)"
          by (simp add: ReadReg_def)
        then show ?thesis by (simp add: ReadReg_def)
      next
        case idle: False
        show ?thesis
        proof (cases "uart_tx_r s < 0 \<or> UART_TX_BUF_SIZE \<le> uart_tx_r s")
          case True
          with ne idle "1"(2) y show ?thesis
            by (simp add: ReadReg_def)
        next
          case False
          let ?s4 = "wakeup (WriteReg THR (uart_tx_buf s ! nat (uart_tx_r s))
             ((snd (ReadReg LSR s))\<lparr>uart_tx_r := (uart_tx_r s + 1) smod UART_TX_BUF_SIZE\<rparr>))"
          have keep: "console_in ?s4 = console_in s \<and> reg_reads ?s4 RHR = reg_reads s RHR"
            by (simp add: WriteReg_def wakeup_def ReadReg_def)
          from ne idle False "1"(2) have "f ?s4 = Some y"
            by (simp add: ReadReg_def Let_def)
          with "1"(1) y have "console_in s' = console_in ?s4 \<and> reg_reads s' RHR = reg_reads ?s4 RHR"
            by blast
          with keep show ?thesis by simp
        qed
      qed
    qed
  qed
qed

lemma uart_intr_tx_rx_frame:
  assumes "uart_intr_tx val s = Some (Ok s')"
  shows "console_in s' = console_in s \<and> reg_reads s' RHR = reg_reads s RHR"
proof -
  from assms obtain s6 where s6: "console_in s6 = console_in s" "reg_reads s6 RHR = reg_reads s RHR"
    and s': "s' = (if fst (ReadReg IIR s6) AND UART_IIR_BSY \<noteq> 0
                   then snd (ReadReg USR (snd (ReadReg IIR s6))) else snd (ReadReg IIR s6))"
  proof (cases "val AND LSR_TX_IDLE \<noteq> 0")
    case True
    with assms obtain s5 where s5: "uart_start (acquire s) = Some (Ok s5)"
      and e: "s' = (if fst (ReadReg IIR (release s5)) AND UART_IIR_BSY \<noteq> 0
                   then snd (ReadReg USR (snd (ReadReg IIR (release s5))))
                   else snd (ReadReg IIR (release s5)))"
      by (auto simp: uart_intr_tx_def split_def split: option.splits res.splits)
    from uart_start_rx_frame_aux [OF s5]
    have "console_in (release s5) = console_in s" "reg_reads (release s5) RHR = reg_reads s RHR"
      by (simp_all add: release_def acquire_def)
    with e that show ?thesis by blast
  next
    case False
    with assms have "s' = (if fst (ReadReg IIR s) AND UART_IIR_BSY \<noteq> 0
                   then snd (ReadReg USR (snd (ReadReg IIR s))) else snd (ReadReg IIR s))"
      by (auto simp: uart_intr_tx_def split_def)
    with that show ?thesis by blast
  qed
  from s' s6 show ?thesis
    by (simp add: ReadReg_def)
qed

lemma uart_intr_tx_returns:
  assumes "uart_tx_w s = uart_tx_r s"
  shows "\<exists>s'. uart_intr_tx val s = Some (Ok s')"
proof -
  from assms have "uart_start (acquire s) = Some (Ok (acquire s))"
    by (subst uart_start.simps) (simp add: acquire_def)
  then show ?thesis
    by (simp add: uart_intr_tx_def split_def)
qed

lemma uart_intr_rx_part:
  assumes dev: "rx_presents (reg_in s) (reg_reads s RHR) bs"
  shows "\<exists>val s4. uart_intr s = uart_intr_tx val s4 \<and>
           console_in s4 = console_in s @
             map uint (if reg_in s IIR (reg_reads s) AND 0x3f = 0x0c then tl bs else bs) \<and>
           reg_reads s4 RHR = reg_reads s RHR + length bs \<and> same_tx s s4"
proof -
  let ?j = "reg_reads s RHR"
  let ?s1 = "s\<lparr>reg_reads := (reg_reads s)(IIR := Suc (reg_reads s IIR))\<rparr>"
  define timeout where "timeout \<longleftrightarrow> reg_in s IIR (reg_reads s) AND 0x3f = 0x0c"
  define s2 where "s2 = (if timeout then snd (uart_getchar ?s1) else ?s1)"
  define i :: nat where "i = (if timeout \<and> bs \<noteq> [] then 1 else 0)"
  define val where "val = reg_in s2 LSR (reg_reads s2)"
  define s3 where "s3 = s2\<lparr>reg_reads := (reg_reads s2)(LSR := Suc (reg_reads s2 LSR))\<rparr>"
  have dev1: "rx_presents (reg_in ?s1) ?j bs" and j1: "reg_reads ?s1 RHR = ?j + 0"
    using dev by simp_all
  have s2: "reg_reads s2 RHR = ?j + i \<and> console_in s2 = console_in s \<and> same_tx s s2"
  proof (cases "timeout \<and> bs \<noteq> []")
    case True
    then have "0 < length bs" by simp
    from uart_getchar_ready [OF dev1 j1 this] True show ?thesis
      by (simp add: s2_def i_def same_tx_def)
  next
    case False
    show ?thesis
    proof (cases timeout)
      case True
      with False have "bs = []" by simp
      with dev1 j1 have "uart_getchar ?s1 =
          (- 1, ?s1\<lparr>reg_reads := (reg_reads ?s1)(LSR := Suc (reg_reads ?s1 LSR))\<rparr>)"
        by (intro uart_getchar_drained [where j = ?j and bs = bs]) simp_all
      with True False show ?thesis
        by (simp add: s2_def i_def same_tx_def)
    next
      case False
      then show ?thesis
        by (simp add: s2_def i_def same_tx_def)
    qed
  qed
  have i: "i \<le> length bs"
    by (cases bs) (simp_all add: i_def)
  have dev3: "rx_presents (reg_in s3) ?j bs" and j3: "reg_reads s3 RHR = ?j + i"
    using s2 dev by (simp_all add: s3_def same_tx_def)
  have ready: "(val AND LSR_RX_READY \<noteq> 0) = (i < length bs)"
  proof -
    from s2 dev have "rx_presents (reg_in s2) ?j bs" by (simp add: same_tx_def)
    then have "(reg_in s2 LSR (reg_reads s2) AND LSR_RX_READY \<noteq> 0)
        = (reg_reads s2 RHR < ?j + length bs)"
      unfolding rx_presents_def using s2 by (metis le_add1)
    with s2 show ?thesis by (simp add: val_def)
  qed
  have unfold: "uart_intr s =
      (case (if val AND LSR_RX_READY \<noteq> 0 then uart_intr_rx s3 else Some s3) of
         None \<Rightarrow> None | Some s4 \<Rightarrow> uart_intr_tx val s4)"
    by (cases timeout)
      (simp_all add: uart_intr_def ReadReg_def Let_def s2_def s3_def val_def timeout_def
        cong: option.case_cong)
  have fw: "drop i bs = (if timeout then tl bs else bs)"
    by (cases bs) (simp_all add: i_def)
  have "\<exists>s4. (if val AND LSR_RX_READY \<noteq> 0 then uart_intr_rx s3 else Some s3) = Some s4 \<and>
          console_in s4 = console_in s @ map uint (drop i bs) \<and>
          reg_reads s4 RHR = ?j + length bs \<and> same_tx s s4"
  proof (cases "i < length bs")
    case True
    from uart_intr_rx_forwards [OF dev3 j3 i] obtain t' where
      "uart_intr_rx s3 = Some t'" "console_in t' = console_in s3 @ map uint (drop i bs)"
      "reg_reads t' RHR = ?j + length bs" "same_tx s3 t'"
      by blast
    with True ready s2 show ?thesis
      by (simp add: s3_def same_tx_def)
  next
    case False
    with i have "i = length bs" by simp
    with False ready s2 j3 show ?thesis
      by (simp add: s3_def same_tx_def)
  qed
  then obtain s4 where
    "(if val AND LSR_RX_READY \<noteq> 0 then uart_intr_rx s3 else Some s3) = Some s4"
    "console_in s4 = console_in s @ map uint (drop i bs)"
    "reg_reads s4 RHR = ?j + length bs" "same_tx s s4"
    by blast
  with unfold fw have "uart_intr s = uart_intr_tx val s4 \<and>
           console_in s4 = console_in s @
             map uint (if reg_in s IIR (reg_reads s) AND 0x3f = 0x0c then tl bs else bs) \<and>
           reg_reads s4 RHR = reg_reads s RHR + length bs \<and> same_tx s s4"
    by (simp add: timeout_def)
  then show ?thesis by blast
qed

text \<open>
  C9. The claim: \<^verbatim>\<open>uart_intr\<close> forwards every byte the receiver presents to
  \<^verbatim>\<open>consoleintr\<close>, exactly once and in order. The code, on a receiver that holds the
  one byte 0x41 and shows the receive-timeout code 0x0c in its interrupt
  identification register: the byte is read from the receive holding register by the
  \<^verbatim>\<open>(void)uart_getchar()\<close> of the first lines and discarded; \<^verbatim>\<open>consoleintr\<close> is never
  called.
\<close>

theorem uart_intr_timeout_drops_byte:
  "map_option (map_res console_in) (uart_intr (boot (rx_device 0x0c [0x41]))) = Some (Ok []) \<and>
   map_option (map_res rhr_reads) (uart_intr (boot (rx_device 0x0c [0x41]))) = Some (Ok 1)"
  by (simp add: uart_intr_def uart_intr_tx_def uart_getchar_def ReadReg_def boot_def
      rx_device_def rhr_reads_def Let_def)

text \<open>
  C9, as the code has it. On a receiver that presents the bytes \<open>bs\<close>, a call of
  \<^verbatim>\<open>uart_intr\<close> that returns has read each of them from the receive holding register
  once, and no more, and has passed them to \<^verbatim>\<open>consoleintr\<close> in order, each once:
  all of them when the interrupt identification register does not show the
  receive-timeout code at entry, all but the first (which is read and discarded)
  when it does. The receive part always ends; the call returns when the transmit
  buffer is empty, the pump having nothing to do.
\<close>

theorem uart_intr_forwards:
  assumes "rx_presents (reg_in s) (reg_reads s RHR) bs"
  shows "(\<forall>s'. uart_intr s = Some (Ok s') \<longrightarrow>
            console_in s' = console_in s @
              map uint (if reg_in s IIR (reg_reads s) AND 0x3f = 0x0c then tl bs else bs) \<and>
            reg_reads s' RHR = reg_reads s RHR + length bs) \<and>
         (uart_tx_w s = uart_tx_r s \<longrightarrow> (\<exists>s'. uart_intr s = Some (Ok s')))"
proof -
  from uart_intr_rx_part [OF assms] obtain val s4 where
    u: "uart_intr s = uart_intr_tx val s4"
    and c: "console_in s4 = console_in s @
             map uint (if reg_in s IIR (reg_reads s) AND 0x3f = 0x0c then tl bs else bs)"
    and r: "reg_reads s4 RHR = reg_reads s RHR + length bs"
    and t: "same_tx s s4"
    by blast
  have a: "console_in s' = console_in s @
              map uint (if reg_in s IIR (reg_reads s) AND 0x3f = 0x0c then tl bs else bs) \<and>
            reg_reads s' RHR = reg_reads s RHR + length bs"
    if "uart_intr s = Some (Ok s')" for s'
    using uart_intr_tx_rx_frame [of val s4 s'] that u c r by simp
  have b: "\<exists>s'. uart_intr s = Some (Ok s')" if "uart_tx_w s = uart_tx_r s"
    using uart_intr_tx_returns [of s4 val] that t u by (simp add: same_tx_def)
  from a b show ?thesis by blast
qed

theorem uart_intr_forwards_witness:
  "rx_presents (reg_in (boot (rx_device 0x04 [0x41, 0x42])))
     (reg_reads (boot (rx_device 0x04 [0x41, 0x42])) RHR) [0x41, 0x42] \<and>
   (\<exists>s'. uart_intr (boot (rx_device 0x04 [0x41, 0x42])) = Some (Ok s') \<and>
         console_in s' = [0x41, 0x42] \<and> reg_reads s' RHR = 2)"
proof -
  let ?s = "boot (rx_device 0x04 [0x41, 0x42])"
  have h: "rx_presents (reg_in ?s) (reg_reads ?s RHR) [0x41, 0x42]"
    by (simp add: rx_presents_def boot_def rx_device_def)
  have e: "uart_tx_w ?s = uart_tx_r ?s"
    by (simp add: boot_def)
  have i: "reg_in ?s IIR (reg_reads ?s) AND 0x3f \<noteq> 0x0c"
    by (simp add: boot_def rx_device_def)
  have c: "console_in ?s = []" "reg_reads ?s RHR = 0"
    by (simp_all add: boot_def)
  from uart_intr_forwards [OF h] e i c h show ?thesis
    by auto
qed

end
